theory Spec2Isabelle
  imports Main "HOL-Library.AList"
begin

section \<open>Content units and the editing surface\<close>

text \<open>
  The pagination code of \<^verbatim>\<open>static/js/editor2.js\<close> (the Quill-based half of the file)
  drives one rich-text widget per page. The widget itself is a library: what the code
  relies on is its content (\<^verbatim>\<open>getContents().ops\<close>, \<^verbatim>\<open>setContents\<close>), its plain
  text (\<^verbatim>\<open>getText\<close>), its length (\<^verbatim>\<open>getLength\<close>) and its selection.

  A content unit is one entry of \<^verbatim>\<open>ops\<close>: the insert of a text run, or of an embedded
  object, with an attribute bag. The widget ends every document with a line terminator
  of its own (line 1605: \<^verbatim>\<open>Quill always adds a trailing newline, so empty content
  is just "\n"\<close>); \<open>getText\<close> and \<open>getLength\<close> include it, so that
  \<^verbatim>\<open>setSelection(getLength() - 1)\<close> is the end of the content. The record keeps the
  units before that terminator in \<open>contents\<close>.
\<close>

type_synonym attrs = "(string \<times> string) list"

datatype op = Insert string attrs | Embed string attrs

fun op_text :: "op \<Rightarrow> string" where
  "op_text (Insert t a) = t"
| "op_text (Embed v a) = []"

fun op_length :: "op \<Rightarrow> nat" where
  "op_length (Insert t a) = length t"
| "op_length (Embed v a) = 1"

record quill =
  container :: nat
  contents :: "op list"
  range_index :: "nat option"

text \<open>
  \<open>container\<close> is the \<open>N\<close> of the string \<^verbatim>\<open>editor-N\<close> that \<^verbatim>\<open>createQuillEditor\<close>
  received: the handlers it registers close over that string and read the page number
  from it with \<^verbatim>\<open>parseInt(containerId.split('-')[1])\<close>. Nothing ever updates it.
\<close>

text \<open>
  \<^verbatim>\<open>getContents().ops\<close> is the whole document, terminator included, with neighbouring
  text of equal attributes in one op: the terminator is part of the last op when that is
  plain text, and an op of its own after a formatted run, after an embed and in an empty
  document. These are the ops \<^verbatim>\<open>moveOverflowContent\<close> counts and pops. The terminator is
  taken to carry no attribute: the format of the last line is left out.
\<close>

fun with_terminator :: "op list \<Rightarrow> op list" where
  "with_terminator [] = [Insert [CHR ''\<newline>''] []]"
| "with_terminator [Insert t []] = [Insert (t @ [CHR ''\<newline>'']) []]"
| "with_terminator [x] = [x, Insert [CHR ''\<newline>''] []]"
| "with_terminator (x # y # ys) = x # with_terminator (y # ys)"

definition getContents :: "quill \<Rightarrow> op list" where
  "getContents q = with_terminator (contents q)"

text \<open>
  \<^verbatim>\<open>setContents(delta)\<close> makes \<open>delta\<close> the document. A line break that ends the
  last op of \<open>delta\<close> is the terminator of the new document; a \<open>delta\<close> that ends
  otherwise is followed by the widget's own. \<open>stored delta\<close> is the units the document
  then holds before its terminator.
\<close>

fun stored :: "op list \<Rightarrow> op list" where
  "stored [] = []"
| "stored [Insert t a] =
     (if t \<noteq> [] \<and> last t = CHR ''\<newline>''
      then (if butlast t = [] then [] else [Insert (butlast t) a])
      else [Insert t a])"
| "stored [x] = [x]"
| "stored (x # y # ys) = x # stored (y # ys)"

definition getText :: "quill \<Rightarrow> string" where
  "getText q = concat (map op_text (contents q)) @ [CHR ''\<newline>'']"

definition getLength :: "quill \<Rightarrow> nat" where
  "getLength q = sum_list (map op_length (contents q)) + 1"

text \<open>JavaScript's \<^verbatim>\<open>trim\<close>, on the white space that fits a \<open>char\<close>.\<close>

definition is_space :: "char \<Rightarrow> bool" where
  "is_space c \<longleftrightarrow>
     c \<in> set [CHR 0x09, CHR ''\<newline>'', CHR 0x0B, CHR 0x0C, CHR 0x0D, CHR 0x20, CHR 0xA0]"

definition trim :: "string \<Rightarrow> string" where
  "trim t = rev (dropWhile is_space (rev (dropWhile is_space t)))"

definition isPageEmpty :: "quill \<Rightarrow> bool" where
  "isPageEmpty q \<longleftrightarrow>
     (let text = getText q in text = [CHR ''\<newline>''] \<or> trim text = [])"

section \<open>The document: globals, page elements, editor instances\<close>

type_synonym qid = nat

record page_el =
  page_id :: nat
  page_number :: nat
  editor_id :: nat
  mounted :: qid

text \<open>
  A \<^verbatim>\<open>div.page\<close> element: \<open>page_id\<close> is the \<open>N\<close> of its id \<^verbatim>\<open>page-N\<close>,
  \<open>page_number\<close> the text of its \<^verbatim>\<open>.page-number\<close> child, \<open>editor_id\<close> the \<open>N\<close>
  of the id \<^verbatim>\<open>editor-N\<close> of its editor child, and \<open>mounted\<close> the editor instance that
  was created on that child.
\<close>

datatype timer = FocusActive | FocusActiveEnd nat | FocusAt qid nat

record state =
  currentPage :: nat
  editors :: "(nat \<times> qid) list"
  activeEditor :: "qid option"
  pages :: "page_el list"
  quills :: "quill list"
  focused :: "qid option"
  timers :: "timer list"
  totalText :: string
  lastSaved :: string
  totalPagesDisplay :: nat
  currentPageDisplay :: nat

text \<open>
  \<open>currentPage\<close>, \<open>editors\<close> and \<open>activeEditor\<close> are the globals of line 1386.
  \<open>editors\<close> is an object with integer keys: an association list, read with
  \<open>map_of\<close>, written with \<open>AList.update\<close> and \<open>AList.delete\<close>, whose keys
  JavaScript enumerates in ascending order. \<open>pages\<close> is the list of \<^verbatim>\<open>.page\<close>
  elements in document order. \<open>quills\<close> is the store of editor instances, an instance
  being its index. \<open>timers\<close> holds the callbacks handed to \<^verbatim>\<open>setTimeout\<close> that
  touch the state, in the order they were scheduled. \<open>totalText\<close> is the text that
  \<^verbatim>\<open>updateStats\<close> aggregates and derives the four counters from.
\<close>

definition the_quill :: "state \<Rightarrow> qid \<Rightarrow> quill" where
  "the_quill s q = quills s ! q"

definition upd_quill :: "qid \<Rightarrow> (quill \<Rightarrow> quill) \<Rightarrow> state \<Rightarrow> state" where
  "upd_quill q f s = s\<lparr>quills := (quills s)[q := f (quills s ! q)]\<rparr>"

definition js_keys :: "(nat \<times> qid) list \<Rightarrow> nat list" where
  "js_keys e = sort (map fst e)"

definition js_values :: "(nat \<times> qid) list \<Rightarrow> qid list" where
  "js_values e = map snd (sort_key fst e)"

definition updateStats :: "state \<Rightarrow> state" where
  "updateStats s =
     s\<lparr>totalText := concat (map (\<lambda>q. getText (the_quill s q)) (js_values (editors s)))\<rparr>"

definition updateCurrentPageDisplay :: "nat \<Rightarrow> state \<Rightarrow> state" where
  "updateCurrentPageDisplay pageNum s = s\<lparr>currentPageDisplay := pageNum\<rparr>"

definition updatePageCount :: "state \<Rightarrow> state" where
  "updatePageCount s =
     s\<lparr>totalPagesDisplay := length (js_keys (editors s)),
       currentPage := fold max (js_keys (editors s)) 0\<rparr>"

text \<open>
  \<^verbatim>\<open>Math.max()\<close> of no argument is \<^verbatim>\<open>-Infinity\<close>; the model gives 0 there. The
  registry is never empty where a theorem below reads \<open>currentPage\<close> after
  \<open>updatePageCount\<close>.
\<close>

subsection \<open>The widget's operations and the handlers they fire\<close>

datatype source = User | Api | Silent

text \<open>
  A programmatic \<^verbatim>\<open>setContents\<close> emits \<^verbatim>\<open>text-change\<close> with source \<^verbatim>\<open>api\<close>; the
  handler of line 1471, \<open>on_text_change\<close> below, then runs \<^verbatim>\<open>updateStats()\<close> and nothing
  else.
\<close>

definition setContents :: "qid \<Rightarrow> op list \<Rightarrow> state \<Rightarrow> state" where
  "setContents q d s = updateStats (upd_quill q (\<lambda>x. x\<lparr>contents := stored d\<rparr>) s)"

definition getSelection :: "qid \<Rightarrow> state \<Rightarrow> nat option" where
  "getSelection q s = (if focused s = Some q then range_index (the_quill s q) else None)"

definition focus :: "qid \<Rightarrow> state \<Rightarrow> state" where
  "focus q s = s\<lparr>focused := Some q\<rparr>"

text \<open>
  \<^verbatim>\<open>setSelection\<close> places the cursor and emits \<^verbatim>\<open>selection-change\<close> with a range;
  the handler of line 1488 makes the editor the active one and shows its page number.
\<close>

definition setSelection :: "qid \<Rightarrow> nat \<Rightarrow> state \<Rightarrow> state" where
  "setSelection q i s =
     (let s1 = upd_quill q (\<lambda>x. x\<lparr>range_index := Some i\<rparr>) (s\<lparr>focused := Some q\<rparr>)
      in updateCurrentPageDisplay (container (the_quill s1 q)) (s1\<lparr>activeEditor := Some q\<rparr>))"

definition createQuillEditor :: "nat \<Rightarrow> state \<Rightarrow> qid \<times> state" where
  "createQuillEditor cid s =
     (length (quills s),
      s\<lparr>quills := quills s @ [\<lparr>container = cid, contents = [], range_index = None\<rparr>]\<rparr>)"

section \<open>Page creation, renumbering, deletion\<close>

definition createNewPage :: "state \<Rightarrow> state" where
  "createNewPage s =
     (let s1 = s\<lparr>currentPage := currentPage s + 1\<rparr>;
          cp = currentPage s1;
          newPage = \<lparr>page_id = cp, page_number = cp, editor_id = cp,
                     mounted = length (quills s1)\<rparr>;
          s2 = s1\<lparr>pages := pages s1 @ [newPage]\<rparr>;
          (q, s3) = createQuillEditor cp s2;
          s4 = s3\<lparr>editors := AList.update cp q (editors s3)\<rparr>
      in updatePageCount s4)"

text \<open>
  The new editor is mounted on the element just appended: \<^verbatim>\<open>new Quill('#editor-N')\<close>
  takes the first element with that id, which is the new one whenever no older element
  carries it, as in every state \<open>wf\<close> below describes.
\<close>

definition renumberPages :: "state \<Rightarrow> state" where
  "renumberPages s =
     (let pageElements = zip [1..<Suc (length (pages s))] (pages s);
          newEditors = fold (\<lambda>(newPageNum, pageElement) acc.
                         case map_of (editors s) (page_id pageElement) of
                           Some e \<Rightarrow> AList.update newPageNum e acc
                         | None \<Rightarrow> acc) pageElements [];
          relabelled = map (\<lambda>(newPageNum, pageElement).
                         pageElement\<lparr>page_id := newPageNum, page_number := newPageNum,
                                     editor_id := newPageNum\<rparr>) pageElements
      in s\<lparr>pages := relabelled, editors := newEditors,
           currentPage := length (pages s)\<rparr>)"

definition deleteEmptyPage :: "nat \<Rightarrow> state \<Rightarrow> bool \<times> state" where
  "deleteEmptyPage pageNum s =
     (if pageNum = 1 then (False, s)
      else case map_of (editors s) pageNum of
        None \<Rightarrow> (False, s)
      | Some editorToDelete \<Rightarrow>
          (case find (\<lambda>p. page_id p = pageNum) (pages s) of
             None \<Rightarrow> (False, s)
           | Some pageElement \<Rightarrow>
               if isPageEmpty (the_quill s editorToDelete) then
                 let s1 = s\<lparr>pages := remove1 pageElement (pages s)\<rparr>;
                     s2 = s1\<lparr>editors := AList.delete pageNum (editors s1)\<rparr>;
                     prevPageNum = pageNum - 1;
                     s3 = (case map_of (editors s2) prevPageNum of
                             Some e \<Rightarrow> s2\<lparr>activeEditor := Some e,
                                          timers := timers s2 @ [FocusActiveEnd prevPageNum]\<rparr>
                           | None \<Rightarrow> s2);
                     s4 = renumberPages s3;
                     s5 = updatePageCount s4
                 in (True, s5)
               else (False, s)))"

text \<open>
  The deferred callbacks. Those of the load handler (\<open>FocusActive\<close>) and of
  \<open>deleteEmptyPage\<close> (\<open>FocusActiveEnd\<close>) read the global \<open>activeEditor\<close> when they
  run; that of \<open>handleEnterAtBeginning\<close> (\<open>FocusAt nextEditor 0\<close>) holds the editor it
  focuses and the offset it selects.
\<close>

fun run_timer :: "timer \<Rightarrow> state \<Rightarrow> state" where
  "run_timer FocusActive s =
     (case activeEditor s of
        None \<Rightarrow> s
      | Some a \<Rightarrow>
          (let s1 = focus a s;
               len = getLength (the_quill s1 a)
           in setSelection a (len - 1) s1))"
| "run_timer (FocusActiveEnd prevPageNum) s =
     (case activeEditor s of
        None \<Rightarrow> s
      | Some a \<Rightarrow>
          (let s1 = focus a s;
               len = getLength (the_quill s1 a);
               s2 = setSelection a (len - 1) s1
           in updateCurrentPageDisplay prevPageNum s2))"
| "run_timer (FocusAt e i) s = setSelection e i (focus e s)"

definition run_timers :: "state \<Rightarrow> state" where
  "run_timers s = fold run_timer (timers s) (s\<lparr>timers := []\<rparr>)"

text \<open>
  The state the load handler (line 1936) leaves for the one page of the document:
  \<^verbatim>\<open>editors[1] = createQuillEditor('editor-1')\<close>, \<^verbatim>\<open>activeEditor = editors[1]\<close>,
  \<^verbatim>\<open>updateStats()\<close>, and the focus it defers. The page markup is not part of the file:
  the first page is taken to be a \<^verbatim>\<open>.page\<close> element \<^verbatim>\<open>page-1\<close> holding \<^verbatim>\<open>editor-1\<close>, with
  both displays showing 1 and no text in the save label.
\<close>

definition initial :: state where
  "initial =
     \<lparr>currentPage = 1, editors = [(1, 0)], activeEditor = Some 0,
      pages = [\<lparr>page_id = 1, page_number = 1, editor_id = 1, mounted = 0\<rparr>],
      quills = [\<lparr>container = 1, contents = [], range_index = None\<rparr>],
      focused = None, timers = [FocusActive], totalText = [CHR ''\<newline>''],
      lastSaved = [], totalPagesDisplay = 1, currentPageDisplay = 1\<rparr>"

section \<open>Overflow\<close>

text \<open>
  \<open>pageHeight\<close> is \<open>(297 - 40) * 3.78 = 971.46\<close>; \<^verbatim>\<open>scrollHeight\<close> is a whole number
  of pixels. The layout is not the code's: \<open>m i\<close> is what the \<open>i\<close>-th read of
  \<^verbatim>\<open>scrollHeight\<close> returns, for any \<open>m\<close>.
\<close>

definition overflows :: "nat \<Rightarrow> bool" where
  "overflows scrollHeight \<longleftrightarrow> 97146 < 100 * scrollHeight"

datatype outcome = Done | TypeError

function moveLoop ::
  "(nat \<Rightarrow> nat) \<Rightarrow> nat \<Rightarrow> qid \<Rightarrow> nat \<Rightarrow> op list \<Rightarrow> op list \<Rightarrow> state
     \<Rightarrow> op list \<times> op list \<times> state" where
  "moveLoop m i currentQuill totalHeight ops moveOps s =
     (if overflows totalHeight \<and> length ops > 1 then
        (let lastOp = last ops;
             ops' = butlast ops;
             moveOps' = lastOp # moveOps;
             s' = setContents currentQuill ops' s
         in moveLoop m (Suc i) currentQuill (m i) ops' moveOps' s')
      else (ops, moveOps, s))"
  by pat_completeness auto
termination
  by (relation "measure (\<lambda>(m, i, q, h, ops, mv, s). length ops)") auto

declare moveLoop.simps [simp del]

definition moveOverflowContent ::
  "(nat \<Rightarrow> nat) \<Rightarrow> qid \<Rightarrow> nat \<Rightarrow> state \<Rightarrow> outcome \<times> state" where
  "moveOverflowContent m currentQuill currentContainerId s =
     (case map_of (editors s) (currentPage s) of
        None \<Rightarrow> (Done, s)
      | Some nextEditor \<Rightarrow>
          (let ops = getContents (the_quill s currentQuill) in
           if length ops > 1 then
             (case find (\<lambda>p. editor_id p = currentContainerId) (pages s) of
                None \<Rightarrow> (TypeError, s)
              | Some editorElement \<Rightarrow>
                  (let (ops', moveOps, s') = moveLoop m 1 currentQuill (m 0) ops [] s
                   in if length moveOps > 0
                      then (Done, setContents nextEditor moveOps s')
                      else (Done, s')))
           else (Done, s)))"

definition checkPageOverflow ::
  "(nat \<Rightarrow> nat) \<Rightarrow> qid \<Rightarrow> nat \<Rightarrow> state \<Rightarrow> outcome \<times> state" where
  "checkPageOverflow m quill containerId s =
     (case find (\<lambda>p. editor_id p = containerId) (pages s) of
        None \<Rightarrow> (Done, s)
      | Some editorElement \<Rightarrow>
          if overflows (m 0)
          then moveOverflowContent (\<lambda>i. m (Suc i)) quill containerId (createNewPage s)
          else (Done, s))"

definition on_text_change :: "source \<Rightarrow> (nat \<Rightarrow> nat) \<Rightarrow> qid \<Rightarrow> state \<Rightarrow> state" where
  "on_text_change src m quill s =
     (let s1 = updateStats s in
      if src = User then
        (case checkPageOverflow m quill (container (the_quill s1 quill)) s1 of
           (Done, s2) \<Rightarrow> s2\<lparr>lastSaved := ''Unsaved changes''\<rparr>
         | (TypeError, s2) \<Rightarrow> s2)
      else s1)"

section \<open>Keys\<close>

definition handleEnterAtBeginning :: "qid \<Rightarrow> nat \<Rightarrow> state \<Rightarrow> bool option \<times> state" where
  "handleEnterAtBeginning quill containerId s =
     (case getSelection quill s of
        Some 0 \<Rightarrow>
          (let currentContent = getContents (the_quill s quill);
               s1 = (if map_of (editors s) (currentPage s + 1) = None
                     then createNewPage s else s)
           in case map_of (editors s1) (currentPage s1) of
                None \<Rightarrow> (None, s1)
              | Some nextEditor \<Rightarrow>
                  (let s2 = setContents nextEditor currentContent s1;
                       s3 = setContents quill [] s2
                   in (Some True, s3\<lparr>timers := timers s3 @ [FocusAt nextEditor 0]\<rparr>)))
      | _ \<Rightarrow> (Some False, s))"

text \<open>
  The result is what the function returns, \<open>None\<close> when \<^verbatim>\<open>nextEditor.setContents\<close>
  throws because \<^verbatim>\<open>editors[currentPage]\<close> is undefined. \<open>enter_binding\<close> is the
  function bound at line 1545, with the value \<open>handled\<close> it tests.
\<close>

definition enter_binding :: "qid \<Rightarrow> state \<Rightarrow> bool option \<times> state" where
  "enter_binding quill s =
     (case getSelection quill s of
        Some 0 \<Rightarrow> handleEnterAtBeginning quill (container (the_quill s quill)) s
      | _ \<Rightarrow> (Some False, s))"

text \<open>
  A press of Enter. The keyboard module of the widget keeps the handlers bound to a key in
  the order they were bound, and calls them in that order for as long as they return
  \<^verbatim>\<open>true\<close>. The editor is constructed without a \<^verbatim>\<open>keyboard\<close> option (line 1417), so
  the widget's own Enter handler is bound first, by the constructor;
  \<^verbatim>\<open>quill.keyboard.addBinding\<close> at line 1545 binds the function above after it. The
  widget's handler breaks the line at the cursor and returns nothing: what it does to the
  state is the parameter \<open>lineBreak\<close>. The function of line 1545 returns
  \<^verbatim>\<open>false\<close> when \<open>handled\<close>, and \<^verbatim>\<open>true\<close> otherwise; when it throws, no further
  handler runs.
\<close>

type_synonym handler = "qid \<Rightarrow> state \<Rightarrow> bool \<times> state"

fun run_bindings :: "handler list \<Rightarrow> qid \<Rightarrow> state \<Rightarrow> state" where
  "run_bindings [] quill s = s"
| "run_bindings (h # hs) quill s =
     (case h quill s of
        (True, s') \<Rightarrow> run_bindings hs quill s'
      | (False, s') \<Rightarrow> s')"

definition quill_enter :: "(qid \<Rightarrow> state \<Rightarrow> state) \<Rightarrow> handler" where
  "quill_enter lineBreak quill s = (False, lineBreak quill s)"

definition added_enter :: handler where
  "added_enter quill s =
     (case enter_binding quill s of
        (Some handled, s') \<Rightarrow> (\<not> handled, s')
      | (None, s') \<Rightarrow> (False, s'))"

definition press_enter :: "(qid \<Rightarrow> state \<Rightarrow> state) \<Rightarrow> qid \<Rightarrow> state \<Rightarrow> state" where
  "press_enter lineBreak quill s = run_bindings [quill_enter lineBreak, added_enter] quill s"

datatype key = Backspace | Delete | OtherKey

text \<open>
  The \<^verbatim>\<open>keydown\<close> listener of line 1497. It calls \<^verbatim>\<open>isCursorAtBeginning\<close> and
  \<^verbatim>\<open>moveContentToPreviousPage\<close>, which the file does not define: they are parameters
  here, the second receiving the number of the container id. \<open>onDelete\<close> is the second
  \<^verbatim>\<open>if\<close> of the listener, which a Backspace that took no branch falls through to. The
  result is whether the default was prevented, and the new state.
\<close>

definition keydown ::
  "(qid \<Rightarrow> state \<Rightarrow> bool) \<Rightarrow> (qid \<Rightarrow> nat \<Rightarrow> state \<Rightarrow> bool \<times> state)
     \<Rightarrow> key \<Rightarrow> qid \<Rightarrow> state \<Rightarrow> bool \<times> state" where
  "keydown isCursorAtBeginning moveContentToPreviousPage k quill s =
     (let pageNum = container (the_quill s quill);
          onDelete =
            (if k = Delete \<and> pageNum > 1 \<and> isPageEmpty (the_quill s quill)
             then (True, snd (deleteEmptyPage pageNum s))
             else (False, s))
      in if k = Backspace \<and> pageNum > 1 then
           (let isEmpty = isPageEmpty (the_quill s quill);
                atBeginning = isCursorAtBeginning quill s
            in if isEmpty then (True, snd (deleteEmptyPage pageNum s))
               else if atBeginning then (True, snd (moveContentToPreviousPage quill pageNum s))
               else onDelete)
         else onDelete)"

section \<open>Export\<close>

function string_of_nat :: "nat \<Rightarrow> string" where
  "string_of_nat n =
     (if n < 10 then [char_of (48 + n)]
      else string_of_nat (n div 10) @ [char_of (48 + n mod 10)])"
  by pat_completeness auto
termination
  by (relation "measure id") auto

declare string_of_nat.simps [simp del]

definition page_header :: "nat \<Rightarrow> string" where
  "page_header pageNum =
     ''\<newline>\<newline>--- Page '' @ string_of_nat pageNum @ '' ---\<newline>\<newline>''"

definition exportAsText :: "state \<Rightarrow> string" where
  "exportAsText s =
     foldl (\<lambda>allText pageNum.
              case map_of (editors s) pageNum of
                Some e \<Rightarrow> (allText @ page_header pageNum) @ getText (the_quill s e)
              | None \<Rightarrow> allText @ page_header pageNum)
       [] (js_keys (editors s))"

section \<open>The merge with the previous page\<close>

text \<open>
  Modelled from the spec: \<^verbatim>\<open>isCursorAtBeginning\<close>, which the listener calls at line 1502 and
  the file does not define. Section 4.2 gives the adapter a cursor query that answers an
  offset, or nothing when the surface holds no selection; transition 2 of section 4.4 fires
  "when cursor is at offset 0".
\<close>

definition isCursorAtBeginning :: "qid \<Rightarrow> state \<Rightarrow> bool" where
  "isCursorAtBeginning quill s \<longleftrightarrow> getSelection quill s = Some 0"

text \<open>
  Modelled from the spec: the rank of the page an editor is bound to. Section 3 identifies a
  page by its rank and binds it to one editing surface; the merge below acts on the page of
  the editor the key was pressed in.
\<close>

definition rank_of :: "qid \<Rightarrow> state \<Rightarrow> nat option" where
  "rank_of q s = map_option fst (find (\<lambda>(k, e). e = q) (editors s))"

text \<open>
  Modelled from the spec: the full-document get and set of the adapter of section 4.2,
  \<^verbatim>\<open>getContent() -> ordered sequence of content units\<close> and \<^verbatim>\<open>setContent(units)\<close>, on
  the units of a page; a set is a programmatic change, after which the statistics are
  refreshed.
\<close>

definition getContent :: "quill \<Rightarrow> op list" where
  "getContent q = contents q"

definition setContent :: "qid \<Rightarrow> op list \<Rightarrow> state \<Rightarrow> state" where
  "setContent q units s = updateStats (upd_quill q (\<lambda>x. x\<lparr>contents := units\<rparr>) s)"

text \<open>
  Modelled from the spec: \<^verbatim>\<open>moveContentToPreviousPage\<close>, which the listener calls at line
  1527 and the file does not define. Transition 2 of section 4.4: "transfer this page's
  entire content to the end of the previous page's content, then delete this (now-empty)
  page, renumber, and place the cursor at the join point (end of what was previously the
  previous page's content)"; transition 5 exempts page 1. The page is the one the editor is
  registered at; the deletion and the renumbering are those of \<open>deleteEmptyPage\<close>; the
  cursor is placed by a deferred focus, as section 4.2 asks of \<^verbatim>\<open>focusAt\<close>.
\<close>

definition moveContentToPreviousPage :: "qid \<Rightarrow> nat \<Rightarrow> state \<Rightarrow> bool \<times> state" where
  "moveContentToPreviousPage quill containerId s =
     (case rank_of quill s of
        None \<Rightarrow> (False, s)
      | Some r \<Rightarrow>
          if r \<le> 1 then (False, s)
          else case map_of (editors s) (r - 1) of
            None \<Rightarrow> (False, s)
          | Some prevEditor \<Rightarrow>
              (let joinPoint = getLength (the_quill s prevEditor) - 1;
                   merged = getContent (the_quill s prevEditor) @ getContent (the_quill s quill);
                   s1 = setContent prevEditor merged s;
                   s2 = setContent quill [] s1;
                   (deleted, s3) = deleteEmptyPage r s2
               in (True, s3\<lparr>timers := timers s3 @ [FocusAt prevEditor joinPoint]\<rparr>)))"

text \<open>The listener of line 1497 with these two as its callees.\<close>

definition listener :: "key \<Rightarrow> qid \<Rightarrow> state \<Rightarrow> bool \<times> state" where
  "listener k quill s = keydown isCursorAtBeginning moveContentToPreviousPage k quill s"

section \<open>Well-formed documents\<close>

definition ranks :: "nat \<Rightarrow> nat list" where
  "ranks n = [1..<Suc n]"

text \<open>
  \<open>wf\<close> is the shape of the document between two events: \<open>n\<close> page elements whose
  ids, labels and editor ids are \<open>1..n\<close> in document order, the registry binding each rank
  to the editor mounted on that page, \<open>currentPage\<close> the last rank, the mounted editors
  distinct and allocated. An editor was created under a number at least its present rank,
  and the editor of the first page under the number 1.
\<close>

definition wf :: "state \<Rightarrow> bool" where
  "wf s \<longleftrightarrow>
     (let n = length (pages s) in
      1 \<le> n \<and>
      map page_id (pages s) = ranks n \<and>
      map page_number (pages s) = ranks n \<and>
      map editor_id (pages s) = ranks n \<and>
      editors s = zip (ranks n) (map mounted (pages s)) \<and>
      currentPage s = n \<and>
      distinct (map mounted (pages s)) \<and>
      (\<forall>p \<in> set (pages s). mounted p < length (quills s)) \<and>
      (\<forall>p \<in> set (pages s). page_id p \<le> container (quills s ! mounted p)) \<and>
      container (quills s ! mounted (hd (pages s))) = 1)"

text \<open>\<open>frame s s'\<close>: the step from \<open>s\<close> to \<open>s'\<close> touched no page, no registry entry and
  no editor's creation number.\<close>

definition frame :: "state \<Rightarrow> state \<Rightarrow> bool" where
  "frame s s' \<longleftrightarrow>
     pages s' = pages s \<and> editors s' = editors s \<and> currentPage s' = currentPage s \<and>
     length (quills s') = length (quills s) \<and>
     (\<forall>i. container (quills s' ! i) = container (quills s ! i))"

definition relabel :: "page_el list \<Rightarrow> page_el list" where
  "relabel ps = map (\<lambda>(i, p). p\<lparr>page_id := i, page_number := i, editor_id := i\<rparr>)
                  (zip (ranks (length ps)) ps)"

text \<open>
  The states the document can be in: the loaded document, and whatever an operation of
  the source makes of a reachable state, whatever its arguments and whatever the layout
  reports. \<open>typed\<close> is the user's own edit of a page's content.
\<close>

definition typed :: "qid \<Rightarrow> op list \<Rightarrow> state \<Rightarrow> state" where
  "typed q d s = upd_quill q (\<lambda>x. x\<lparr>contents := d\<rparr>) s"

inductive reachable :: "state \<Rightarrow> bool" where
  r_initial: "reachable initial"
| r_typed: "reachable s \<Longrightarrow> reachable (typed q d s)"
| r_text_change: "reachable s \<Longrightarrow> reachable (on_text_change src m q s)"
| r_create: "reachable s \<Longrightarrow> reachable (createNewPage s)"
| r_delete: "reachable s \<Longrightarrow> reachable (snd (deleteEmptyPage k s))"
| r_overflow: "reachable s \<Longrightarrow> reachable (snd (checkPageOverflow m q cid s))"
| r_move: "reachable s \<Longrightarrow> reachable (snd (moveOverflowContent m q cid s))"
| r_enter: "reachable s \<Longrightarrow> reachable (snd (enter_binding q s))"
| r_select: "reachable s \<Longrightarrow> reachable (setSelection q i s)"
| r_timer: "reachable s \<Longrightarrow> reachable (run_timer t s)"

section \<open>Example documents\<close>

text \<open>Layouts: one that always reports 1200 pixels, one that reports 1200 twice and then
  800.\<close>

definition always_high :: "nat \<Rightarrow> nat" where
  "always_high i = 1200"

definition high_then_low :: "nat \<Rightarrow> nat" where
  "high_then_low i = (if i < 2 then 1200 else 800)"

definition three_units :: "op list" where
  "three_units = [Insert ''Hello '' [], Insert ''big '' [(''bold'', ''true'')], Insert ''world'' []]"

text \<open>Three empty pages; then the same document after Backspace on the empty page 2, where
  the editor created as \<^verbatim>\<open>editor-3\<close> sits on page 2.\<close>

definition three_empty :: state where
  "three_empty = createNewPage (createNewPage initial)"

definition renumbered :: state where
  "renumbered = snd (deleteEmptyPage 2 three_empty)"

text \<open>Two pages, the first holding an empty line and then a bold run.\<close>

definition blank_then_bold :: state where
  "blank_then_bold =
     createNewPage (typed 0 [Insert ''\<newline>'' [], Insert ''a'' [(''bold'', ''true'')]] initial)"

text \<open>Two pages, the second holding \<open>x\<close>.\<close>

definition second_nonempty :: state where
  "second_nonempty = typed 1 [Insert ''x'' []] (createNewPage initial)"

text \<open>Scenario B of the spec: page 1 holds \<open>A\<close>, page 2 holds \<open>B\<close>, the cursor is at
  offset 0 of page 2.\<close>

definition scenario_b :: state where
  "scenario_b =
     setSelection 1 0
       (typed 1 [Insert ''B'' []] (typed 0 [Insert ''A'' []] (createNewPage (run_timers initial))))"

text \<open>Scenario D of the spec: three pages holding \<open>a\<close>, \<open>b\<close>, \<open>c\<close>.\<close>

definition scenario_d :: state where
  "scenario_d =
     typed 2 [Insert ''c'' []] (typed 1 [Insert ''b'' []] (typed 0 [Insert ''a'' []] three_empty))"

text \<open>Two pages: the first holds a bold run and a plain one, the second a plain run.\<close>

definition two_pages :: state where
  "two_pages =
     typed 1 [Insert ''next'' []]
       (typed 0 [Insert ''Hello '' [(''bold'', ''true'')], Insert ''world'' []]
          (createNewPage initial))"

text \<open>One page holding \<open>x\<close>, the cursor at its offset 0.\<close>

definition one_page :: state where
  "one_page = setSelection 0 0 (typed 0 [Insert ''x'' []] (run_timers initial))"

text \<open>A layout that always reports 800 pixels, and what the widget's own Enter handler does
  with the cursor at offset 0 of a page: a line break before the content, as an edit of the
  user's, and the cursor after it.\<close>

definition always_low :: "nat \<Rightarrow> nat" where
  "always_low i = 800"

definition line_break_at_start :: "(nat \<Rightarrow> nat) \<Rightarrow> qid \<Rightarrow> state \<Rightarrow> state" where
  "line_break_at_start m quill s =
     upd_quill quill (\<lambda>x. x\<lparr>range_index := Some 1\<rparr>)
       (on_text_change User m quill
          (typed quill (Insert [CHR ''\<newline>''] [] # contents (the_quill s quill)) s))"

section \<open>The invariant is kept\<close>

lemma ranks_Suc: "ranks (Suc n) = ranks n @ [Suc n]"
  by (simp add: ranks_def)

lemma length_ranks: "length (ranks n) = n"
  by (simp add: ranks_def)

lemma set_ranks: "set (ranks n) = {1..n}"
  by (auto simp: ranks_def)

lemma sorted_ranks: "sorted (ranks n)"
  by (simp add: ranks_def del: upt_Suc)

lemma distinct_ranks: "distinct (ranks n)"
  by (simp add: ranks_def del: upt_Suc)

lemma fold_max_ranks: "fold max (ranks n) 0 = n"
  by (induction n) (simp_all add: ranks_Suc, simp add: ranks_def)

lemma frame_refl: "frame s s"
  by (simp add: frame_def)
lemma frame_trans: "frame s s' \<Longrightarrow> frame s' s'' \<Longrightarrow> frame s s''"
  by (simp add: frame_def)

lemma wf_frame: "frame s s' \<Longrightarrow> wf s \<Longrightarrow> wf s'"
  by (simp add: frame_def wf_def Let_def)

lemma nth_upd_gen:
  "g (f (xs ! q)) = g (xs ! q) \<Longrightarrow> g (xs[q := f (xs ! q)] ! i) = g (xs ! i)"
  by (cases "q < length xs"; cases "i = q") (simp_all add: list_update_beyond)

lemma frame_upd_quill:
  "(\<And>x. container (f x) = container x) \<Longrightarrow> frame s (upd_quill q f s)"
  by (simp add: frame_def upd_quill_def nth_upd_gen)

lemma frame_updateStats: "frame s (updateStats s)"
  by (simp add: frame_def updateStats_def)

lemma frame_setContents: "frame s (setContents q d s)"
  unfolding setContents_def
  by (rule frame_trans [OF frame_upd_quill frame_updateStats]) simp

lemma frame_setSelection: "frame s (setSelection q i s)"
  by (simp add: frame_def setSelection_def upd_quill_def updateCurrentPageDisplay_def Let_def nth_upd_gen)

lemma frame_run_timer: "frame s (run_timer t s)"
  by (cases t) (auto simp: Let_def updateCurrentPageDisplay_def frame_def setSelection_def upd_quill_def focus_def nth_upd_gen split: option.splits)

lemma wf_initial: "wf initial"
  by (simp add: wf_def initial_def ranks_def)

lemma update_fresh: "k \<notin> fst ` set al \<Longrightarrow> AList.update k v al = al @ [(k, v)]"
  by (induction al) auto

lemma createNewPage_wf:
  assumes "wf s"
  shows "createNewPage s =
     s\<lparr>currentPage := Suc (length (pages s)),
       pages := pages s @ [\<lparr>page_id = Suc (length (pages s)), page_number = Suc (length (pages s)),
                 editor_id = Suc (length (pages s)), mounted = length (quills s)\<rparr>],
       quills := quills s @ [\<lparr>container = Suc (length (pages s)), contents = [], range_index = None\<rparr>],
       editors := editors s @ [(Suc (length (pages s)), length (quills s))],
       totalPagesDisplay := Suc (length (pages s))\<rparr>"
proof -
  let ?n = "length (pages s)"
  from assms have cp: "currentPage s = ?n"
    and ed: "editors s = zip (ranks ?n) (map mounted (pages s))"
    by (simp_all add: wf_def Let_def)
  have keys: "map fst (editors s) = ranks ?n"
    by (simp add: ed length_ranks)
  have fresh: "Suc ?n \<notin> fst ` set (editors s)"
    using keys set_ranks [of ?n] by (metis Suc_n_not_le_n atLeastAtMost_iff list.set_map)
  have mx: "fold max (ranks ?n @ [Suc ?n]) 0 = Suc ?n"
    using fold_max_ranks [of "Suc ?n"] by (simp only: ranks_Suc)
  have srt: "sort (ranks ?n @ [Suc ?n]) = ranks ?n @ [Suc ?n]"
    using sorted_ranks [of "Suc ?n"] by (simp only: ranks_Suc sorted_sort_id)
  have len: "length (editors s) = ?n"
    by (simp add: ed length_ranks)
  show ?thesis
    by (simp add: createNewPage_def createQuillEditor_def Let_def updatePageCount_def js_keys_def
        cp update_fresh [OF fresh] keys srt fold_max_ranks len)
qed

lemma wf_createNewPage:
  assumes "wf s"
  shows "wf (createNewPage s)"
proof -
  let ?n = "length (pages s)"
  from assms have n: "1 \<le> ?n" by (simp add: wf_def Let_def)
  then have hd: "hd (pages s @ xs) = hd (pages s)" for xs
    by (cases "pages s") auto
  from assms have m: "\<forall>p\<in>set (pages s). mounted p < length (quills s)"
    by (simp add: wf_def Let_def)
  then have hdm: "mounted (hd (pages s)) < length (quills s)"
    using n by (cases "pages s") auto
  from m have nin: "length (quills s) \<notin> mounted ` set (pages s)" by auto
  from m have m': "\<forall>p\<in>set (pages s). mounted p < Suc (length (quills s))" by auto
  from assms show ?thesis
    apply (simp only: createNewPage_wf [OF assms])
    apply (simp add: wf_def Let_def ranks_Suc hd hdm nin m' nth_append length_ranks)
    done
qed

lemma wf_nth_ids:
  assumes "wf s" "i < length (pages s)"
  shows "page_id (pages s ! i) = Suc i" "editor_id (pages s ! i) = Suc i"
proof -
  from assms(1) have a: "map page_id (pages s) = ranks (length (pages s))"
    and b: "map editor_id (pages s) = ranks (length (pages s))"
    by (simp_all add: wf_def Let_def)
  have "map page_id (pages s) ! i = ranks (length (pages s)) ! i" by (simp only: a)
  with assms(2) show "page_id (pages s ! i) = Suc i" by (simp add: ranks_def del: upt_Suc)
  have "map editor_id (pages s) ! i = ranks (length (pages s)) ! i" by (simp only: b)
  with assms(2) show "editor_id (pages s ! i) = Suc i" by (simp add: ranks_def del: upt_Suc)
qed

lemma wf_find_page:
  assumes "wf s" "1 \<le> k" "k \<le> length (pages s)"
  shows "find (\<lambda>p. page_id p = k) (pages s) = Some (pages s ! (k - 1))"
  unfolding find_Some_iff
  using assms wf_nth_ids(1) [OF assms(1)]
  by (intro exI [of _ "k - 1"]) auto

lemma wf_find_editor:
  assumes "wf s" "1 \<le> k" "k \<le> length (pages s)"
  shows "find (\<lambda>p. editor_id p = k) (pages s) = Some (pages s ! (k - 1))"
  unfolding find_Some_iff
  using assms wf_nth_ids(2) [OF assms(1)]
  by (intro exI [of _ "k - 1"]) auto

lemma wf_map_of_editors:
  assumes "wf s"
  shows "map_of (editors s) k =
     (if 1 \<le> k \<and> k \<le> length (pages s) then Some (mounted (pages s ! (k - 1))) else None)"
proof -
  let ?n = "length (pages s)"
  from assms have ed: "editors s = zip (ranks ?n) (map mounted (pages s))"
    by (simp add: wf_def Let_def)
  show ?thesis
  proof (cases "1 \<le> k \<and> k \<le> ?n")
    case True
    then have i: "k - 1 < ?n" and k: "ranks ?n ! (k - 1) = k"
      by (auto simp: ranks_def simp del: upt_Suc)
    have "map_of (zip (ranks ?n) (map mounted (pages s))) (ranks ?n ! (k - 1))
        = Some (map mounted (pages s) ! (k - 1))"
      using i by (intro map_of_zip_nth) (simp_all add: length_ranks distinct_ranks)
    with True i k show ?thesis by (simp add: ed)
  next
    case False
    then have "k \<notin> set (ranks ?n)" by (auto simp: set_ranks)
    then have "map_of (zip (ranks ?n) (map mounted (pages s))) k = None"
      by (simp add: map_of_zip_is_None length_ranks)
    with False show ?thesis by (simp add: ed)
  qed
qed

lemma remove1_nth_distinct:
  "distinct xs \<Longrightarrow> i < length xs \<Longrightarrow> remove1 (xs ! i) xs = take i xs @ drop (Suc i) xs"
proof (induction xs arbitrary: i)
  case Nil
  then show ?case by simp
next
  case (Cons x xs)
  then show ?case by (cases i) auto
qed

lemma wf_distinct_pages: "wf s \<Longrightarrow> distinct (pages s)"
  by (metis distinct_map wf_def)

lemma length_relabel: "length (relabel ps) = length ps"
  by (simp add: relabel_def length_ranks)

lemma map2_relabel:
  assumes "length xs = length ps"
  shows "map page_id (map2 (\<lambda>i p. p\<lparr>page_id := i, page_number := i, editor_id := i\<rparr>) xs ps) = xs"
    and "map page_number (map2 (\<lambda>i p. p\<lparr>page_id := i, page_number := i, editor_id := i\<rparr>) xs ps) = xs"
    and "map editor_id (map2 (\<lambda>i p. p\<lparr>page_id := i, page_number := i, editor_id := i\<rparr>) xs ps) = xs"
    and "map mounted (map2 (\<lambda>i p. p\<lparr>page_id := i, page_number := i, editor_id := i\<rparr>) xs ps)
           = map mounted ps"
  using assms by (induction xs ps rule: list_induct2) simp_all

lemma relabel_ids:
  "map page_id (relabel ps) = ranks (length ps)"
  "map page_number (relabel ps) = ranks (length ps)"
  "map editor_id (relabel ps) = ranks (length ps)"
  "map mounted (relabel ps) = map mounted ps"
  unfolding relabel_def by (simp_all only: map2_relabel [OF length_ranks])

lemma renumber_fold:
  assumes "\<forall>p\<in>set ps. map_of E (page_id p) = Some (mounted p)"
    and "\<forall>k\<in>fst ` set acc. k < a"
  shows "fold (\<lambda>(newPageNum, pageElement) acc.
            case map_of E (page_id pageElement) of
              Some e \<Rightarrow> AList.update newPageNum e acc
            | None \<Rightarrow> acc) (zip [a..<a + length ps] ps) acc
         = acc @ zip [a..<a + length ps] (map mounted ps)"
  using assms
proof (induction ps arbitrary: a acc)
  case Nil
  then show ?case by simp
next
  case (Cons p ps)
  have up: "[a..<a + length (p # ps)] = a # [Suc a..<Suc a + length ps]"
    by (subst upt_rec) simp
  have fresh: "a \<notin> fst ` set acc" using Cons.prems(2) by auto
  have lk: "map_of E (page_id p) = Some (mounted p)" using Cons.prems(1) by simp
  have "\<forall>k\<in>fst ` set (acc @ [(a, mounted p)]). k < Suc a"
    using Cons.prems(2) by auto
  with Cons.IH [of "acc @ [(a, mounted p)]" "Suc a"] Cons.prems(1)
  show ?case
    by (simp only: up) (simp add: lk update_fresh [OF fresh])
qed

lemma renumberPages_wf:
  assumes "\<forall>p\<in>set (pages s). map_of (editors s) (page_id p) = Some (mounted p)"
  shows "renumberPages s =
           s\<lparr>pages := relabel (pages s),
             editors := zip (ranks (length (pages s))) (map mounted (pages s)),
             currentPage := length (pages s)\<rparr>"
proof -
  have "fold (\<lambda>(newPageNum, pageElement) acc.
            case map_of (editors s) (page_id pageElement) of
              Some e \<Rightarrow> AList.update newPageNum e acc
            | None \<Rightarrow> acc) (zip [1..<1 + length (pages s)] (pages s)) []
         = [] @ zip [1..<1 + length (pages s)] (map mounted (pages s))"
    by (rule renumber_fold [OF assms]) simp
  then show ?thesis
    unfolding renumberPages_def Let_def relabel_def ranks_def
    by (simp del: upt_Suc)
qed

lemma wf_lookup_page:
  assumes "wf s" "p \<in> set (pages s)"
  shows "map_of (editors s) (page_id p) = Some (mounted p)"
proof -
  from assms(2) obtain i where i: "i < length (pages s)" "p = pages s ! i"
    by (auto simp: in_set_conv_nth)
  with wf_nth_ids(1) [OF assms(1), of i] wf_map_of_editors [OF assms(1), of "Suc i"]
  show ?thesis by simp
qed

lemma updatePageCount_zip:
  assumes "editors s = zip (ranks n) xs" "length xs = n"
  shows "updatePageCount s = s\<lparr>totalPagesDisplay := n, currentPage := n\<rparr>"
proof -
  have "map fst (editors s) = ranks n" by (simp add: assms length_ranks)
  then show ?thesis
    by (simp add: updatePageCount_def js_keys_def sorted_sort_id sorted_ranks fold_max_ranks length_ranks)
qed

lemma deleteEmptyPage_wf:
  assumes "wf s" "2 \<le> k" "k \<le> length (pages s)"
    and "isPageEmpty (the_quill s (mounted (pages s ! (k - 1))))"
  shows "deleteEmptyPage k s =
    (True, s\<lparr>pages := relabel (take (k - 1) (pages s) @ drop k (pages s)),
              editors := zip (ranks (length (pages s) - 1))
                           (map mounted (take (k - 1) (pages s) @ drop k (pages s))),
              currentPage := length (pages s) - 1,
              activeEditor := Some (mounted (pages s ! (k - 2))),
              timers := timers s @ [FocusActiveEnd (k - 1)],
              totalPagesDisplay := length (pages s) - 1\<rparr>)"
proof -
  let ?ps = "pages s" and ?n = "length (pages s)"
  define ps' where "ps' = take (k - 1) ?ps @ drop k ?ps"
  define m where "m = ?n - 1"
  have k1: "k \<noteq> 1" "1 \<le> k" "1 \<le> (k - Suc 0)" "(k - Suc 0) \<le> ?n" "(k - Suc 0) < ?n" "(k - Suc 0) - 1 = k - 2" "Suc (k - Suc 0) = k"
    using assms(2,3) by (auto simp: One_nat_def)
  have lk: "map_of (editors s) k = Some (mounted (?ps ! (k - Suc 0)))"
    using wf_map_of_editors [OF assms(1), of k] assms(2,3) by (simp add: One_nat_def)
  have fd: "find (\<lambda>p. page_id p = k) ?ps = Some (?ps ! (k - Suc 0))"
    using wf_find_page [OF assms(1) k1(2) assms(3)] by (simp add: One_nat_def)
  have rm: "remove1 (?ps ! (k - Suc 0)) ?ps = ps'"
    using remove1_nth_distinct [OF wf_distinct_pages [OF assms(1)] k1(5)] k1(7)
    by (simp add: ps'_def One_nat_def)
  have prev: "map_of (AList.delete k (editors s)) (k - Suc 0) = Some (mounted (?ps ! (k - 2)))"
    using wf_map_of_editors [OF assms(1), of "k - Suc 0"] k1
    by (simp add: delete_conv')
  have prev': "map_of (editors s) (k - Suc 0) = Some (mounted (?ps ! (k - 2)))"
    using wf_map_of_editors [OF assms(1), of "k - Suc 0"] k1 by simp
  have len: "length ps' = m" using assms(2,3) by (auto simp: ps'_def m_def)
  have sub: "\<forall>p\<in>set ps'. map_of (AList.delete k (editors s)) (page_id p) = Some (mounted p)"
  proof
    fix p assume "p \<in> set ps'"
    then have "p \<in> set (remove1 (?ps ! (k - Suc 0)) ?ps)" by (simp only: rm)
    then have in_ps: "p \<in> set ?ps" and ne: "p \<noteq> ?ps ! (k - Suc 0)"
      using wf_distinct_pages [OF assms(1)] by auto
    from in_ps obtain i where i: "i < ?n" "p = ?ps ! i" by (auto simp: in_set_conv_nth)
    with ne have "i \<noteq> (k - Suc 0)" by auto
    with i wf_nth_ids(1) [OF assms(1), of i] have "page_id p \<noteq> k" using k1 by auto
    with wf_lookup_page [OF assms(1) in_ps]
    show "map_of (AList.delete k (editors s)) (page_id p) = Some (mounted p)"
      by (simp add: delete_conv')
  qed
  define s3 where "s3 = s\<lparr>pages := ps', editors := AList.delete k (editors s),
               activeEditor := Some (mounted (?ps ! (k - 2))),
               timers := timers s @ [FocusActiveEnd (k - Suc 0)]\<rparr>"
  have s3: "pages s3 = ps'" "editors s3 = AList.delete k (editors s)"
    by (simp_all add: s3_def)
  have rn: "renumberPages s3 =
      s3\<lparr>pages := relabel ps', editors := zip (ranks m) (map mounted ps'),
           currentPage := m\<rparr>"
    using renumberPages_wf [of s3] sub by (simp add: s3 len)
  have upc: "updatePageCount (renumberPages s3) =
      (renumberPages s3)\<lparr>totalPagesDisplay := m, currentPage := m\<rparr>"
    by (rule updatePageCount_zip [where xs = "map mounted ps'"]) (simp_all add: rn len)
  have "deleteEmptyPage k s = (True, updatePageCount (renumberPages s3))"
    unfolding deleteEmptyPage_def
    using assms(2,4)
    by (simp add: lk fd rm prev prev' Let_def s3_def)
  also have "updatePageCount (renumberPages s3) =
      (renumberPages s3)\<lparr>totalPagesDisplay := m, currentPage := m\<rparr>"
    by (rule upc)
  also have "\<dots> =
      s\<lparr>pages := relabel ps', editors := zip (ranks m) (map mounted ps'),
        currentPage := m, activeEditor := Some (mounted (?ps ! (k - 2))),
        timers := timers s @ [FocusActiveEnd (k - Suc 0)], totalPagesDisplay := m\<rparr>"
    by (simp only: rn) (simp add: s3_def)
  finally show ?thesis
    by (simp add: ps'_def m_def)
qed

lemma wf_after_delete:
  assumes "wf s" "2 \<le> k" "k \<le> length (pages s)"
  shows "wf (s\<lparr>pages := relabel (take (k - 1) (pages s) @ drop k (pages s)),
              editors := zip (ranks (length (pages s) - 1))
                           (map mounted (take (k - 1) (pages s) @ drop k (pages s))),
              currentPage := length (pages s) - 1,
              activeEditor := a, timers := ts, totalPagesDisplay := d\<rparr>)"
proof -
  let ?ps = "pages s" and ?n = "length (pages s)"
  define ps' where "ps' = take (k - 1) ?ps @ drop k ?ps"
  define m where "m = ?n - 1"
  have len: "length ps' = m" using assms(2,3) by (auto simp: ps'_def m_def)
  have m1: "1 \<le> m" using assms(2,3) by (simp add: m_def)
  have sk: "Suc (k - 1) = k" using assms(2) by simp
  have nth': "ps' ! j = (if j < k - 1 then ?ps ! j else ?ps ! Suc j)" if "j < m" for j
    using that assms(2,3) by (auto simp: ps'_def m_def nth_append min_def)
  from assms(1) have dist: "distinct (map mounted ?ps)"
    and bound: "\<forall>p\<in>set ?ps. mounted p < length (quills s)"
    and cont: "\<forall>p\<in>set ?ps. page_id p \<le> container (quills s ! mounted p)"
    and first: "container (quills s ! mounted (hd ?ps)) = 1"
    by (simp_all add: wf_def Let_def)
  have sub: "set ps' \<subseteq> set ?ps"
    unfolding ps'_def using set_take_subset [of "k - 1" ?ps] set_drop_subset [of k ?ps] by auto
  have d': "distinct (map mounted ps')"
  proof -
    have "map mounted ps' = take (k - 1) (map mounted ?ps) @ drop k (map mounted ?ps)"
      by (simp add: ps'_def take_map drop_map)
    moreover have "set (take (k - 1) (map mounted ?ps)) \<inter> set (drop k (map mounted ?ps)) = {}"
      by (rule set_take_disj_set_drop_if_distinct [OF dist]) simp
    ultimately show ?thesis using dist by (simp add: distinct_take distinct_drop)
  qed
  have mset: "mounted ` set (relabel ps') = mounted ` set ps'"
    using relabel_ids(4) [of ps'] by (metis list.set_map)
  have b': "\<forall>p\<in>set (relabel ps'). mounted p < length (quills s)"
    using mset bound sub by (metis (no_types, lifting) image_iff subsetD)
  have c': "\<forall>p\<in>set (relabel ps'). page_id p \<le> container (quills s ! mounted p)"
  proof
    fix p assume "p \<in> set (relabel ps')"
    then obtain j where j: "j < m" "p = relabel ps' ! j"
      by (auto simp: in_set_conv_nth length_relabel len)
    have "map page_id (relabel ps') ! j = ranks m ! j" by (simp only: relabel_ids len)
    then have pid: "page_id p = Suc j"
      using j by (simp add: length_relabel len ranks_def del: upt_Suc)
    have "map mounted (relabel ps') ! j = map mounted ps' ! j" by (simp only: relabel_ids)
    then have mp: "mounted p = mounted (ps' ! j)"
      using j by (simp add: length_relabel len)
    show "page_id p \<le> container (quills s ! mounted p)"
    proof (cases "j < k - 1")
      case True
      then have "ps' ! j = ?ps ! j" using nth' [OF j(1)] by simp
      moreover have "j < ?n" using j(1) by (simp add: m_def)
      ultimately show ?thesis
        using cont wf_nth_ids(1) [OF assms(1), of j] pid mp by (metis nth_mem order_refl)
    next
      case False
      then have e: "ps' ! j = ?ps ! Suc j" using nth' [OF j(1)] by simp
      have sj: "Suc j < ?n" using j(1) by (simp add: m_def)
      then have "page_id (?ps ! Suc j) \<le> container (quills s ! mounted (?ps ! Suc j))"
        using cont by simp
      then show ?thesis
        using wf_nth_ids(1) [OF assms(1) sj] pid mp e by simp
    qed
  qed
  have ne: "ps' \<noteq> []" "relabel ps' \<noteq> []" "?ps \<noteq> []"
    using len m1 length_relabel [of ps'] assms(2,3) by auto
  have "map mounted (relabel ps') ! 0 = map mounted ps' ! 0" by (simp only: relabel_ids)
  then have "mounted (relabel ps' ! 0) = mounted (ps' ! 0)"
    using ne by simp
  moreover have "ps' ! 0 = ?ps ! 0" using nth' [of 0] m1 assms(2) by simp
  ultimately have h': "mounted (hd (relabel ps')) = mounted (hd ?ps)"
    using ne by (simp add: hd_conv_nth)
  have "wf (s\<lparr>pages := relabel ps', editors := zip (ranks m) (map mounted ps'),
              currentPage := m, activeEditor := a, timers := ts, totalPagesDisplay := d\<rparr>)"
    using m1 d' b' c' h' first
    by (simp add: wf_def Let_def length_relabel relabel_ids len)
  then show ?thesis
    by (simp add: ps'_def m_def)
qed

lemma deleteEmptyPage_refuse:
  assumes "wf s"
    and "\<not> (2 \<le> k \<and> k \<le> length (pages s) \<and>
            isPageEmpty (the_quill s (mounted (pages s ! (k - 1)))))"
  shows "deleteEmptyPage k s = (False, s)"
  using assms(2) wf_map_of_editors [OF assms(1), of k]
  by (auto simp: deleteEmptyPage_def split: option.splits)

lemma wf_deleteEmptyPage:
  assumes "wf s"
  shows "wf (snd (deleteEmptyPage k s))"
proof (cases "2 \<le> k \<and> k \<le> length (pages s) \<and>
            isPageEmpty (the_quill s (mounted (pages s ! (k - 1))))")
  case True
  then show ?thesis
    using deleteEmptyPage_wf [OF assms, of k] wf_after_delete [OF assms, of k] by simp
next
  case False
  then show ?thesis using deleteEmptyPage_refuse [OF assms False] assms by simp
qed

lemma moveLoop_stop:
  "\<not> (overflows h \<and> length ops > 1) \<Longrightarrow> moveLoop m i q h ops mv s = (ops, mv, s)"
  by (subst moveLoop.simps) auto

lemma moveLoop_step:
  "overflows h \<Longrightarrow> length ops > 1 \<Longrightarrow>
   moveLoop m i q h ops mv s =
     moveLoop m (Suc i) q (m i) (butlast ops) (last ops # mv) (setContents q (butlast ops) s)"
  by (subst moveLoop.simps) (simp add: Let_def)

lemma frame_moveLoop:
  "moveLoop m i q h ops mv s = (ops', mv', s') \<Longrightarrow> frame s s'"
proof (induction m i q h ops mv s rule: moveLoop.induct)
  case (1 m i q h ops mv s)
  show ?case
  proof (cases "overflows h \<and> length ops > 1")
    case True
    with 1 have "frame (setContents q (butlast ops) s) s'"
      by (simp add: moveLoop_step)
    then show ?thesis by (rule frame_trans [OF frame_setContents])
  next
    case False
    with 1(2) show ?thesis by (simp add: moveLoop_stop frame_refl)
  qed
qed

lemma frame_moveOverflowContent: "frame s (snd (moveOverflowContent m q cid s))"
  by (auto simp: moveOverflowContent_def Let_def frame_refl split: option.splits prod.splits
      intro: frame_trans [OF frame_moveLoop frame_setContents] frame_moveLoop)

lemma wf_checkPageOverflow: "wf s \<Longrightarrow> wf (snd (checkPageOverflow m q cid s))"
  by (auto simp: checkPageOverflow_def split: option.splits
      intro: wf_frame [OF frame_moveOverflowContent] wf_createNewPage)

lemma frame_lastSaved: "frame s (s\<lparr>lastSaved := x\<rparr>)"
  by (simp add: frame_def)

lemma wf_on_text_change: "wf s \<Longrightarrow> wf (on_text_change src m q s)"
  using wf_checkPageOverflow [of "updateStats s" m q "container (the_quill (updateStats s) q)"]
    wf_frame [OF frame_updateStats, of s]
  by (auto simp: on_text_change_def Let_def split: prod.splits outcome.splits
      intro: wf_frame [OF frame_lastSaved])

lemma frame_timers: "frame s (s\<lparr>timers := x\<rparr>)"
  by (simp add: frame_def)

lemma wf_handleEnterAtBeginning: "wf s \<Longrightarrow> wf (snd (handleEnterAtBeginning q cid s))"
  by (auto simp: handleEnterAtBeginning_def Let_def split: option.splits nat.splits
      intro!: wf_frame [OF frame_timers] wf_frame [OF frame_setContents] wf_createNewPage)

lemma wf_run_timer: "wf s \<Longrightarrow> wf (run_timer t s)"
  by (rule wf_frame [OF frame_run_timer])

section \<open>The overflow split\<close>

lemma the_quill_setContents:
  "the_quill (setContents q d s) x =
     (if x = q \<and> q < length (quills s) then (the_quill s q)\<lparr>contents := stored d\<rparr>
      else the_quill s x)"
  by (cases "q < length (quills s)")
     (auto simp: setContents_def updateStats_def upd_quill_def the_quill_def list_update_beyond)

lemma with_terminator_nonempty: "with_terminator u \<noteq> []"
  by (induction u rule: with_terminator.induct) simp_all

lemma length_quills_setContents: "length (quills (setContents q d s)) = length (quills s)"
  by (simp add: setContents_def updateStats_def upd_quill_def)

lemma moveLoop_append:
  "moveLoop m i q h ops mv s = (ops', mv', s') \<Longrightarrow> ops' @ mv' = ops @ mv"
proof (induction m i q h ops mv s rule: moveLoop.induct)
  case (1 m i q h ops mv s)
  show ?case
  proof (cases "overflows h \<and> length ops > 1")
    case True
    then have "ops \<noteq> []" by auto
    with True 1 show ?thesis by (simp add: moveLoop_step)
  next
    case False
    with 1(2) show ?thesis by (simp add: moveLoop_stop)
  qed
qed

lemma moveLoop_nonempty:
  "moveLoop m i q h ops mv s = (ops', mv', s') \<Longrightarrow> ops \<noteq> [] \<Longrightarrow> ops' \<noteq> []"
proof (induction m i q h ops mv s rule: moveLoop.induct)
  case (1 m i q h ops mv s)
  show ?case
  proof (cases "overflows h \<and> length ops > 1")
    case True
    then have "butlast ops \<noteq> []" by (cases ops rule: rev_cases) auto
    with True 1 show ?thesis by (simp add: moveLoop_step)
  next
    case False
    with 1(2,3) show ?thesis by (simp add: moveLoop_stop)
  qed
qed


lemma moveLoop_grows:
  "moveLoop m i q h ops mv s = (ops', mv', s') \<Longrightarrow> length mv \<le> length mv'"
proof (induction m i q h ops mv s rule: moveLoop.induct)
  case (1 m i q h ops mv s)
  show ?case
  proof (cases "overflows h \<and> length ops > 1")
    case True
    with 1 have "length (last ops # mv) \<le> length mv'" by (simp add: moveLoop_step)
    then show ?thesis by simp
  next
    case False
    with 1(2) show ?thesis by (simp add: moveLoop_stop)
  qed
qed

lemma moveLoop_page:
  "moveLoop m i q h ops mv s = (ops', mv', s') \<Longrightarrow>
   length (quills s') = length (quills s) \<and>
   (\<forall>x. x \<noteq> q \<longrightarrow> the_quill s' x = the_quill s x) \<and>
   (mv' = mv \<and> s' = s \<or>
    mv' \<noteq> [] \<and>
    the_quill s' q = (if q < length (quills s) then (the_quill s q)\<lparr>contents := stored ops'\<rparr>
                      else the_quill s q))"
proof (induction m i q h ops mv s rule: moveLoop.induct)
  case (1 m i q h ops mv s)
  show ?case
  proof (cases "overflows h \<and> length ops > 1")
    case True
    define s1 where "s1 = setContents q (butlast ops) s"
    from True 1(2) have l: "moveLoop m (Suc i) q (m i) (butlast ops) (last ops # mv) s1
        = (ops', mv', s')"
      by (simp add: moveLoop_step s1_def)
    have ih: "length (quills s') = length (quills s1) \<and>
       (\<forall>x. x \<noteq> q \<longrightarrow> the_quill s' x = the_quill s1 x) \<and>
       (mv' = last ops # mv \<and> s' = s1 \<or>
        mv' \<noteq> [] \<and>
        the_quill s' q = (if q < length (quills s1)
                          then (the_quill s1 q)\<lparr>contents := stored ops'\<rparr>
                          else the_quill s1 q))"
      using 1(1) [OF True refl refl refl refl l [unfolded s1_def]] unfolding s1_def .
    have q1: "the_quill s1 x = (if x = q \<and> q < length (quills s)
        then (the_quill s q)\<lparr>contents := stored (butlast ops)\<rparr> else the_quill s x)" for x
      by (simp add: s1_def the_quill_setContents)
    have l1: "length (quills s1) = length (quills s)"
      by (simp add: s1_def length_quills_setContents)
    from moveLoop_grows [OF l] have "mv' \<noteq> []" by auto
    moreover have "mv' = last ops # mv \<and> s' = s1 \<Longrightarrow> ops' = butlast ops"
      using moveLoop_append [OF l] by simp
    ultimately show ?thesis using ih by (auto simp: q1 l1)
  next
    case False
    with 1(2) show ?thesis by (simp add: moveLoop_stop)
  qed
qed

lemma moveLoop_reads:
  "moveLoop m i q h ops mv s = (ops', mv', s') \<Longrightarrow> h = r 0 \<Longrightarrow> (\<And>j. m (i + j) = r (Suc j)) \<Longrightarrow>
   length mv \<le> length mv' \<and>
   (\<forall>j < length mv' - length mv. overflows (r j)) \<and>
   (1 < length ops' \<longrightarrow> \<not> overflows (r (length mv' - length mv)))"
proof (induction m i q h ops mv s arbitrary: r rule: moveLoop.induct)
  case (1 m i q h ops mv s)
  show ?case
  proof (cases "overflows h \<and> length ops > 1")
    case True
    from True 1(2) have l: "moveLoop m (Suc i) q (m i) (butlast ops) (last ops # mv)
        (setContents q (butlast ops) s) = (ops', mv', s')"
      by (simp add: moveLoop_step)
    have "m i = r (Suc 0)" using 1(4) [of 0] by simp
    moreover have "m (Suc i + j) = r (Suc (Suc j))" for j using 1(4) [of "Suc j"] by simp
    ultimately have ih: "length (last ops # mv) \<le> length mv' \<and>
       (\<forall>j < length mv' - length (last ops # mv). overflows (r (Suc j))) \<and>
       (1 < length ops' \<longrightarrow> \<not> overflows (r (Suc (length mv' - length (last ops # mv)))))"
      using 1(1) [OF True refl refl refl refl l, of "\<lambda>j. r (Suc j)"] by simp
    then have le: "Suc (length mv) \<le> length mv'" by simp
    then have e: "Suc (length mv' - Suc (length mv)) = length mv' - length mv" by simp
    have "overflows (r j)" if "j < length mv' - length mv" for j
    proof (cases j)
      case 0
      with True 1(3) show ?thesis by simp
    next
      case (Suc j')
      with that have "j' < length mv' - Suc (length mv)" by simp
      with ih Suc show ?thesis by simp
    qed
    with ih le e show ?thesis by simp
  next
    case False
    with 1(2,3) show ?thesis by (auto simp: moveLoop_stop)
  qed
qed


text \<open>
  The op that stays may be a line break alone, which \<open>setContents\<close> then takes for the
  terminator of the page: of the ops \<open>\n\<close>, \<open>a\<close> in bold, \<open>\n\<close> of a page that overflows at
  every read, the first stays and the page reports that one op, with no unit before its
  terminator.
\<close>

lemma split_may_keep_a_line_break_only:
  "getContents (the_quill blank_then_bold 0)
     = [Insert ''\<newline>'' [], Insert ''a'' [(''bold'', ''true'')], Insert ''\<newline>'' []] \<and>
   getContents (the_quill (snd (moveOverflowContent always_high 0 1 blank_then_bold)) 0)
     = [Insert ''\<newline>'' []] \<and>
   contents (the_quill (snd (moveOverflowContent always_high 0 1 blank_then_bold)) 0) = [] \<and>
   getContents (the_quill (snd (moveOverflowContent always_high 0 1 blank_then_bold)) 1)
     = [Insert ''a'' [(''bold'', ''true'')], Insert ''\<newline>'' []]"
proof -
  let ?a = "Insert ''a'' [(''bold'', ''true'')]" and ?n = "Insert ''\<newline>'' []"
  define s where "s = blank_then_bold"
  have f: "map_of (editors s) (currentPage s) = Some 1"
    "getContents (the_quill s 0) = [?n, ?a, ?n]"
    "find (\<lambda>p. editor_id p = 1) (pages s) \<noteq> None" "length (quills s) = 2"
    unfolding s_def by code_simp+
  have loop: "moveLoop always_high (Suc 0) 0 (always_high 0) [?n, ?a, ?n] [] s
    = ([?n], [?a, ?n], setContents 0 [?n] (setContents 0 [?n, ?a] s))"
    by (simp add: moveLoop_step moveLoop_stop always_high_def overflows_def)
  have mv: "moveOverflowContent always_high 0 1 s
    = (Done, setContents 1 [?a, ?n] (setContents 0 [?n] (setContents 0 [?n, ?a] s)))"
    using f(3) by (auto simp: moveOverflowContent_def f(1,2) loop)
  from f mv show ?thesis
    by (simp add: getContents_def the_quill_setContents length_quills_setContents
        flip: s_def)
qed



section \<open>Rank density\<close>

lemma wf_enter_binding: "wf s \<Longrightarrow> wf (snd (enter_binding q s))"
  by (auto simp: enter_binding_def wf_handleEnterAtBeginning split: option.splits nat.splits)

lemma wf_typed: "wf s \<Longrightarrow> wf (typed q d s)"
  unfolding typed_def by (rule wf_frame [OF frame_upd_quill]) simp_all

lemma reachable_wf: "reachable s \<Longrightarrow> wf s"
proof (induction rule: reachable.induct)
  case r_initial
  show ?case by (rule wf_initial)
next
  case (r_move s m q cid)
  from r_move.IH show ?case by (rule wf_frame [OF frame_moveOverflowContent])
next
  case (r_select s q i)
  from r_select.IH show ?case by (rule wf_frame [OF frame_setSelection])
qed (simp_all add: wf_typed wf_on_text_change wf_createNewPage wf_deleteEmptyPage
      wf_checkPageOverflow wf_enter_binding wf_run_timer)

text \<open>
  C2. In every state the document reaches, through page creation, deletion of an empty page
  with its renumbering, the overflow split or any other operation, the ranks of the
  registry are exactly \<open>1..N\<close> for the \<open>N\<close> pages of the document, each once, the page
  elements carry the same ids in document order, and rank 1 is bound.
\<close>

theorem rank_density:
  "reachable s \<Longrightarrow>
     1 \<le> length (pages s) \<and>
     length (editors s) = length (pages s) \<and>
     js_keys (editors s) = [1..<Suc (length (pages s))] \<and>
     distinct (map fst (editors s)) \<and>
     map page_id (pages s) = [1..<Suc (length (pages s))] \<and>
     map_of (editors s) 1 \<noteq> None"
proof -
  assume "reachable s"
  then have w: "wf s" by (rule reachable_wf)
  then have ed: "editors s = zip (ranks (length (pages s))) (map mounted (pages s))"
    and n: "1 \<le> length (pages s)"
    and ids: "map page_id (pages s) = ranks (length (pages s))"
    by (simp_all add: wf_def Let_def)
  have keys: "map fst (editors s) = ranks (length (pages s))"
    by (simp add: ed length_ranks)
  have "js_keys (editors s) = ranks (length (pages s))"
    by (simp add: js_keys_def keys sorted_sort_id sorted_ranks)
  moreover have "map_of (editors s) 1 \<noteq> None"
    using wf_map_of_editors [OF w, of 1] n by simp
  moreover have "length (editors s) = length (pages s)"
    by (simp add: ed length_ranks)
  ultimately show ?thesis
    using n ids keys distinct_ranks [of "length (pages s)"]
    by (simp add: ranks_def del: upt_Suc)
qed

theorem rank_density_witness:
  "reachable renumbered \<and> length (pages renumbered) = 2 \<and>
   js_keys (editors renumbered) = [1, 2] \<and> map page_id (pages renumbered) = [1, 2]"
proof -
  have r: "reachable renumbered"
    unfolding renumbered_def three_empty_def
    by (intro r_delete r_create r_initial)
  have l: "length (pages renumbered) = 2" by code_simp
  from rank_density [OF r] l r show ?thesis by (simp add: upt_rec)
qed

section \<open>Refusals\<close>

text \<open>
  C10. For a page number above 1 whose editor holds content, that is whose text is neither
  the single line terminator nor white space only, \<open>deleteEmptyPage\<close> returns \<open>false\<close>
  and leaves the whole state as it was: it tests the emptiness itself.
\<close>

theorem deleteEmptyPage_reverifies:
  "1 < pageNum \<Longrightarrow> map_of (editors s) pageNum = Some e \<Longrightarrow>
   getText (the_quill s e) \<noteq> [CHR ''\<newline>''] \<Longrightarrow> trim (getText (the_quill s e)) \<noteq> [] \<Longrightarrow>
   deleteEmptyPage pageNum s = (False, s)"
  by (simp add: deleteEmptyPage_def isPageEmpty_def Let_def split: option.splits)

theorem deleteEmptyPage_reverifies_witness:
  "map_of (editors second_nonempty) 2 = Some 1 \<and>
   getText (the_quill second_nonempty 1) = ''x\<newline>'' \<and>
   deleteEmptyPage 2 second_nonempty = (False, second_nonempty)"
proof -
  have h: "(1::nat) < 2" "map_of (editors second_nonempty) 2 = Some 1"
    "getText (the_quill second_nonempty 1) \<noteq> [CHR ''\<newline>'']"
    "trim (getText (the_quill second_nonempty 1)) \<noteq> []"
    by code_simp+
  have g: "getText (the_quill second_nonempty 1) = ''x\<newline>''" by code_simp
  from deleteEmptyPage_reverifies [OF h] h(2) g show ?thesis by simp
qed

text \<open>
  C5. In a well-formed document, deleting page 1 is refused (\<open>deleteEmptyPage\<close> returns
  \<open>false\<close>), and Backspace or Delete in the editor of page 1 starts no transition: the
  default is not prevented; in each case the state is untouched.
\<close>

theorem page_one_immortal:
  "wf s \<Longrightarrow> map_of (editors s) 1 = Some q \<Longrightarrow>
   deleteEmptyPage 1 s = (False, s) \<and>
   keydown atStart merge Backspace q s = (False, s) \<and>
   keydown atStart merge Delete q s = (False, s)"
proof -
  assume w: "wf s" and q: "map_of (editors s) 1 = Some q"
  from w have n: "1 \<le> length (pages s)"
    and c: "container (quills s ! mounted (hd (pages s))) = 1"
    by (simp_all add: wf_def Let_def)
  from wf_map_of_editors [OF w, of 1] q n have "q = mounted (pages s ! 0)" by simp
  with n c have "container (the_quill s q) = 1"
    by (cases "pages s") (simp_all add: the_quill_def)
  then show ?thesis
    by (simp add: deleteEmptyPage_def keydown_def Let_def)
qed

theorem page_one_immortal_witness:
  "wf three_empty \<and> map_of (editors three_empty) 1 = Some 0 \<and>
   deleteEmptyPage 1 three_empty = (False, three_empty) \<and>
   keydown isCursorAtBeginning moveContentToPreviousPage Backspace 0 three_empty
     = (False, three_empty) \<and>
   keydown isCursorAtBeginning moveContentToPreviousPage Delete 0 three_empty
     = (False, three_empty)"
proof -
  have w: "wf three_empty"
    unfolding three_empty_def by (intro wf_createNewPage wf_initial)
  have q: "map_of (editors three_empty) 1 = Some 0" by code_simp
  from page_one_immortal [OF w q] w q show ?thesis by simp
qed

section \<open>Programmatic changes\<close>

lemma updateStats_fields:
  "pages (updateStats s) = pages s" "editors (updateStats s) = editors s"
  "quills (updateStats s) = quills s" "currentPage (updateStats s) = currentPage s"
  by (simp_all add: updateStats_def)

text \<open>
  C9. A \<open>text-change\<close> whose source is not the user only refreshes the statistics: the
  overflow check is not run, so no page is created and no content moves. The event a
  programmatic \<open>setContents\<close> emits is such an event: setting the content is the content
  update, to the units \<open>stored\<close> gives, followed by that handler.
\<close>

theorem programmatic_change_no_overflow:
  "src \<noteq> User \<Longrightarrow>
     on_text_change src m q s = updateStats s \<and>
     pages (on_text_change src m q s) = pages s \<and>
     editors (on_text_change src m q s) = editors s \<and>
     quills (on_text_change src m q s) = quills s \<and>
     currentPage (on_text_change src m q s) = currentPage s \<and>
     setContents q d s = on_text_change src m q (typed q (stored d) s)"
  by (simp add: on_text_change_def updateStats_fields setContents_def typed_def)

theorem programmatic_change_no_overflow_witness:
  "Api \<noteq> User \<and>
   pages (on_text_change Api always_high 0 (typed 0 three_units initial))
     = pages (typed 0 three_units initial) \<and>
   quills (on_text_change Api always_high 0 (typed 0 three_units initial))
     = quills (typed 0 three_units initial) \<and>
   length (pages (on_text_change User always_high 0 (typed 0 three_units initial))) = 2"
proof -
  have h: "Api \<noteq> User" by simp
  have u: "length (pages (on_text_change User always_high 0 (typed 0 three_units initial))) = 2"
    by (simp add: on_text_change_def checkPageOverflow_def moveOverflowContent_def Let_def
        updateStats_fields typed_def upd_quill_def initial_def always_high_def overflows_def
        createNewPage_def createQuillEditor_def updatePageCount_def js_keys_def the_quill_def
        getContents_def three_units_def moveLoop_step moveLoop_stop setContents_def
        split: prod.splits)
  from programmatic_change_no_overflow [OF h, of always_high 0 "typed 0 three_units initial"]
    h u show ?thesis by blast
qed

section \<open>Export\<close>

lemma foldl_append_concat: "foldl (\<lambda>acc k. acc @ f k) a ks = a @ concat (map f ks)"
  by (induction ks arbitrary: a) simp_all

lemma exportAsText_concat:
  "exportAsText s =
     concat (map (\<lambda>k. case map_of (editors s) k of
                          Some e \<Rightarrow> page_header k @ getText (the_quill s e)
                        | None \<Rightarrow> page_header k) (js_keys (editors s)))"
proof -
  have "(\<lambda>allText pageNum.
              case map_of (editors s) pageNum of
                Some e \<Rightarrow> (allText @ page_header pageNum) @ getText (the_quill s e)
              | None \<Rightarrow> allText @ page_header pageNum)
      = (\<lambda>allText pageNum. allText @ (case map_of (editors s) pageNum of
                          Some e \<Rightarrow> page_header pageNum @ getText (the_quill s e)
                        | None \<Rightarrow> page_header pageNum))"
    by (auto simp: fun_eq_iff split: option.splits)
  then show ?thesis
    by (simp add: exportAsText_def foldl_append_concat)
qed

lemma the_quill_editors: "the_quill (s\<lparr>editors := e\<rparr>) = the_quill s"
  by (simp add: the_quill_def fun_eq_iff)

lemma js_keys_sorted_list:
  "distinct (map fst e) \<Longrightarrow> js_keys e = sorted_list_of_set (fst ` set e)"
  by (simp add: js_keys_def sorted_list_of_set_sort_remdups distinct_remdups_id flip: set_map)

text \<open>
  C8, as the spec states it, fails on Scenario D: each page's text comes with the line
  terminator the widget ends it with, so three line terminators, not two, separate \<open>a\<close>
  from the next header, and one follows \<open>c\<close>.
\<close>

theorem export_scenario_d_counterexample:
  "contents (the_quill scenario_d 0) = [Insert ''a'' []] \<and>
   contents (the_quill scenario_d 1) = [Insert ''b'' []] \<and>
   contents (the_quill scenario_d 2) = [Insert ''c'' []] \<and>
   editors scenario_d = [(1, 0), (2, 1), (3, 2)] \<and>
   exportAsText scenario_d \<noteq>
     ''\<newline>\<newline>--- Page 1 ---\<newline>\<newline>a\<newline>\<newline>--- Page 2 ---\<newline>\<newline>b\<newline>\<newline>--- Page 3 ---\<newline>\<newline>c''"
  by code_simp

text \<open>
  C8, amended. The export is, for the ranks of the registry in ascending order, the header
  \<open>--- Page N ---\<close> between two pairs of line terminators followed by the text of the page
  of rank \<open>N\<close>, terminator included; it depends on the bindings of the registry only, not on
  the order in which they were made. For Scenario D it is the string below.
\<close>

theorem export_in_rank_order:
  "(distinct (map fst (editors s)) \<longrightarrow>
      exportAsText s =
        concat (map (\<lambda>k. page_header k @ getText (the_quill s (the (map_of (editors s) k))))
                  (sorted_list_of_set (fst ` set (editors s))))) \<and>
   (distinct (map fst e) \<and> distinct (map fst e') \<and> set e = set e' \<longrightarrow>
      exportAsText (s\<lparr>editors := e\<rparr>) = exportAsText (s\<lparr>editors := e'\<rparr>)) \<and>
   page_header 2 = ''\<newline>\<newline>--- Page 2 ---\<newline>\<newline>'' \<and>
   exportAsText scenario_d =
     ''\<newline>\<newline>--- Page 1 ---\<newline>\<newline>a\<newline>\<newline>\<newline>--- Page 2 ---\<newline>\<newline>b\<newline>\<newline>\<newline>--- Page 3 ---\<newline>\<newline>c\<newline>''"
proof (intro conjI impI)
  assume d: "distinct (map fst (editors s))"
  have m: "map (\<lambda>k. case map_of (editors s) k of
                          Some e \<Rightarrow> page_header k @ getText (the_quill s e)
                        | None \<Rightarrow> page_header k) (js_keys (editors s))
      = map (\<lambda>k. page_header k @ getText (the_quill s (the (map_of (editors s) k))))
          (js_keys (editors s))"
  proof (rule map_cong [OF refl])
    fix k assume "k \<in> set (js_keys (editors s))"
    then have "k \<in> fst ` set (editors s)" by (simp add: js_keys_def)
    then obtain e where "map_of (editors s) k = Some e"
      by (metis domD dom_map_of_conv_image_fst)
    then show "(case map_of (editors s) k of
                          Some e \<Rightarrow> page_header k @ getText (the_quill s e)
                        | None \<Rightarrow> page_header k)
        = page_header k @ getText (the_quill s (the (map_of (editors s) k)))"
      by simp
  qed
  have "exportAsText s =
        concat (map (\<lambda>k. page_header k @ getText (the_quill s (the (map_of (editors s) k))))
                  (js_keys (editors s)))"
    by (simp only: exportAsText_concat m)
  then show "exportAsText s =
        concat (map (\<lambda>k. page_header k @ getText (the_quill s (the (map_of (editors s) k))))
                  (sorted_list_of_set (fst ` set (editors s))))"
    by (simp only: js_keys_sorted_list [OF d])
next
  assume a: "distinct (map fst e) \<and> distinct (map fst e') \<and> set e = set e'"
  then have "map_of e = map_of e'" by (intro map_of_inject_set [THEN iffD2]) auto
  moreover from a have "js_keys e = js_keys e'" by (simp add: js_keys_sorted_list)
  ultimately show "exportAsText (s\<lparr>editors := e\<rparr>) = exportAsText (s\<lparr>editors := e'\<rparr>)"
    by (simp add: exportAsText_def the_quill_editors cong: option.case_cong)
next
  show "page_header 2 = ''\<newline>\<newline>--- Page 2 ---\<newline>\<newline>''" by code_simp
next
  show "exportAsText scenario_d =
     ''\<newline>\<newline>--- Page 1 ---\<newline>\<newline>a\<newline>\<newline>\<newline>--- Page 2 ---\<newline>\<newline>b\<newline>\<newline>\<newline>--- Page 3 ---\<newline>\<newline>c\<newline>''"
    by code_simp
qed

theorem export_in_rank_order_witness:
  "distinct (map fst (editors scenario_d)) \<and>
   distinct (map fst [(3::nat, 2::nat), (1, 0), (2, 1)]) \<and>
   set [(3, 2), (1, 0), (2, 1)] = set (editors scenario_d) \<and>
   exportAsText (scenario_d\<lparr>editors := [(3, 2), (1, 0), (2, 1)]\<rparr>) =
     ''\<newline>\<newline>--- Page 1 ---\<newline>\<newline>a\<newline>\<newline>\<newline>--- Page 2 ---\<newline>\<newline>b\<newline>\<newline>\<newline>--- Page 3 ---\<newline>\<newline>c\<newline>''"
proof -
  have e: "editors scenario_d = [(1, 0), (2, 1), (3, 2)]" by code_simp
  have h: "distinct (map fst [(3::nat, 2::nat), (1, 0), (2, 1)]) \<and>
      distinct (map fst (editors scenario_d)) \<and>
      set [(3, 2), (1, 0), (2, 1)] = set (editors scenario_d)"
    by (auto simp: e)
  have s: "scenario_d\<lparr>editors := editors scenario_d\<rparr> = scenario_d" by simp
  note t = export_in_rank_order [of scenario_d "[(3, 2), (1, 0), (2, 1)]" "editors scenario_d"]
  from t h have "exportAsText (scenario_d\<lparr>editors := [(3, 2), (1, 0), (2, 1)]\<rparr>)
      = exportAsText (scenario_d\<lparr>editors := editors scenario_d\<rparr>)"
    by blast
  with t h show ?thesis by (simp only: s)
qed

section \<open>Where the content goes\<close>

lemma setContents_fields:
  "pages (setContents q d s) = pages s" "editors (setContents q d s) = editors s"
  "currentPage (setContents q d s) = currentPage s" "timers (setContents q d s) = timers s"
  "length (quills (setContents q d s)) = length (quills s)"
  "focused (setContents q d s) = focused s" "activeEditor (setContents q d s) = activeEditor s"
  by (simp_all add: setContents_def updateStats_def upd_quill_def)

lemma the_quill_createNewPage:
  assumes "wf s" "x < length (quills s)"
  shows "the_quill (createNewPage s) x = the_quill s x"
  using assms(2) by (simp add: createNewPage_wf [OF assms(1)] the_quill_def nth_append)

lemma the_quill_createNewPage_new:
  assumes "wf s"
  shows "the_quill (createNewPage s) (length (quills s))
           = \<lparr>container = Suc (length (pages s)), contents = [], range_index = None\<rparr>"
  by (simp add: createNewPage_wf [OF assms(1)] the_quill_def nth_append)

lemma wf_mounted_bound:
  assumes "wf s" "map_of (editors s) r = Some q"
  shows "q < length (quills s)" "1 \<le> r" "r \<le> length (pages s)" "q = mounted (pages s ! (r - 1))"
    "r \<le> container (the_quill s q)"
proof -
  from wf_map_of_editors [OF assms(1), of r] assms(2)
  show r: "1 \<le> r" "r \<le> length (pages s)" and q: "q = mounted (pages s ! (r - 1))"
    by (auto split: if_splits)
  then have m: "pages s ! (r - 1) \<in> set (pages s)" by simp
  from assms(1) have "\<forall>p\<in>set (pages s). mounted p < length (quills s)"
    and c: "\<forall>p\<in>set (pages s). page_id p \<le> container (quills s ! mounted p)"
    by (simp_all add: wf_def Let_def)
  with m q show "q < length (quills s)" by blast
  from r have "r - 1 < length (pages s)" "Suc (r - 1) = r" by auto
  with wf_nth_ids(1) [OF assms(1), of "r - 1"] have "page_id (pages s ! (r - 1)) = r" by simp
  moreover from c m have "page_id (pages s ! (r - 1))
      \<le> container (quills s ! mounted (pages s ! (r - 1)))" by blast
  ultimately show "r \<le> container (the_quill s q)" by (simp add: q the_quill_def)
qed

lemma moveOverflowContent_split:
  assumes "q < length (quills s)" "map_of (editors s) (currentPage s) = Some nq" "nq \<noteq> q"
    and "nq < length (quills s)"
    and "find (\<lambda>p. editor_id p = cid) (pages s) \<noteq> None"
    and l: "moveLoop m (Suc 0) q (m 0) (getContents (the_quill s q)) [] s = (ops', mv', s')"
  shows "fst (moveOverflowContent m q cid s) = Done"
    and "contents (the_quill (snd (moveOverflowContent m q cid s)) q)
         = (if mv' = [] then contents (the_quill s q) else stored ops')"
    and "contents (the_quill (snd (moveOverflowContent m q cid s)) nq)
         = (if mv' = [] then contents (the_quill s nq) else stored mv')"
    and "\<forall>x. x \<noteq> q \<and> x \<noteq> nq \<longrightarrow>
           the_quill (snd (moveOverflowContent m q cid s)) x = the_quill s x"
proof -
  from moveLoop_page [OF l] assms(1)
  have f: "\<forall>x. x \<noteq> q \<longrightarrow> the_quill s' x = the_quill s x"
    "length (quills s') = length (quills s)"
    "mv' = [] \<and> s' = s \<or>
     mv' \<noteq> [] \<and> the_quill s' q = (the_quill s q)\<lparr>contents := stored ops'\<rparr>"
    by simp_all
  from assms(5) obtain el where el: "find (\<lambda>p. editor_id p = cid) (pages s) = Some el" by auto
  have single: "\<not> 1 < length (getContents (the_quill s q)) \<Longrightarrow> mv' = [] \<and> s' = s"
    using l by (simp add: moveLoop_stop)
  have r: "moveOverflowContent m q cid s =
      (if mv' \<noteq> [] then (Done, setContents nq mv' s') else (Done, s))"
    using f(3) single l by (auto simp: moveOverflowContent_def assms(2) Let_def el)
  show "fst (moveOverflowContent m q cid s) = Done" by (simp add: r)
  show "contents (the_quill (snd (moveOverflowContent m q cid s)) q)
         = (if mv' = [] then contents (the_quill s q) else stored ops')"
    using f assms(3,4) by (auto simp: r the_quill_setContents)
  show "contents (the_quill (snd (moveOverflowContent m q cid s)) nq)
         = (if mv' = [] then contents (the_quill s nq) else stored mv')"
    using f assms(3,4) by (auto simp: r the_quill_setContents)
  show "\<forall>x. x \<noteq> q \<and> x \<noteq> nq \<longrightarrow>
           the_quill (snd (moveOverflowContent m q cid s)) x = the_quill s x"
    using f by (auto simp: r the_quill_setContents)
qed

lemma updateStats_the_quill: "the_quill (updateStats s) = the_quill s"
  by (simp add: updateStats_def the_quill_def fun_eq_iff)

lemma on_text_change_user_overflow:
  assumes "wf s" "map_of (editors s) r = Some q"
    and "container (the_quill s q) \<le> length (pages s)" "overflows (m 0)"
    and l: "moveLoop (\<lambda>i. m (Suc i)) (Suc 0) q (m (Suc 0)) (getContents (the_quill s q)) []
              (createNewPage (updateStats s)) = (ops', mv', s')"
  shows "contents (the_quill (on_text_change User m q s) q)
         = (if mv' = [] then contents (the_quill s q) else stored ops')"
    and "contents (the_quill (on_text_change User m q s) (length (quills s)))
         = (if mv' = [] then [] else stored mv')"
    and "\<forall>x. x \<noteq> q \<and> x < length (quills s) \<longrightarrow>
           the_quill (on_text_change User m q s) x = the_quill s x"
    and "pages (on_text_change User m q s) = pages (createNewPage (updateStats s))"
    and "editors (on_text_change User m q s) = editors (createNewPage (updateStats s))"
proof -
  let ?s0 = "updateStats s" and ?cid = "container (the_quill s q)" and ?nq = "length (quills s)"
  let ?s1 = "createNewPage ?s0"
  let ?mv = "moveOverflowContent (\<lambda>i. m (Suc i)) q ?cid ?s1"
  have w0: "wf ?s0" by (rule wf_frame [OF frame_updateStats assms(1)])
  have w1: "wf ?s1" by (rule wf_createNewPage [OF w0])
  have same: "pages ?s0 = pages s" "quills ?s0 = quills s" "editors ?s0 = editors s"
    by (simp_all add: updateStats_def)
  note b = wf_mounted_bound [OF assms(1,2)]
  have cid: "1 \<le> ?cid" "?cid \<le> length (pages ?s0)"
    using b(2,5) assms(3) by (simp_all add: same)
  have fd0: "find (\<lambda>p. editor_id p = ?cid) (pages ?s0) = Some (pages ?s0 ! (?cid - 1))"
    by (rule wf_find_editor [OF w0 cid])
  have len1: "length (pages ?s1) = Suc (length (pages s))" "length (quills ?s1) = Suc ?nq"
    "currentPage ?s1 = Suc (length (pages s))"
    by (simp_all add: createNewPage_wf [OF w0] same)
  have fd1: "find (\<lambda>p. editor_id p = ?cid) (pages ?s1) \<noteq> None"
    using wf_find_editor [OF w1 cid(1)] cid(2) len1 by (simp add: same)
  have nx: "map_of (editors ?s1) (currentPage ?s1) = Some ?nq"
    using wf_map_of_editors [OF w1, of "Suc (length (pages s))"] len1
    by (simp add: createNewPage_wf [OF w0] same)
  have q1: "q < length (quills ?s1)" "?nq \<noteq> q" "?nq < length (quills ?s1)"
    using b(1) len1 by simp_all
  have c1: "contents (the_quill ?s1 ?nq) = []"
    using the_quill_createNewPage_new [OF w0] by (simp add: same)
  have tq: "the_quill ?s1 x = the_quill s x" if "x < ?nq" for x
    using the_quill_createNewPage [OF w0, of x] that
    by (simp add: same updateStats_the_quill)
  have l1: "moveLoop (\<lambda>i. m (Suc i)) (Suc 0) q (m (Suc 0)) (getContents (the_quill ?s1 q)) []
              ?s1 = (ops', mv', s')"
    using l by (simp add: tq [OF b(1)])
  note sp = moveOverflowContent_split [OF q1(1) nx q1(2,3) fd1 l1]
  have d: "fst ?mv = Done" by (rule sp(1))
  have e: "on_text_change User m q s = (snd ?mv)\<lparr>lastSaved := ''Unsaved changes''\<rparr>"
    using d assms(4)
    by (cases ?mv)
       (simp add: on_text_change_def Let_def checkPageOverflow_def fd0 updateStats_the_quill)
  have t': "the_quill (x\<lparr>lastSaved := y\<rparr>) = the_quill x" for x y
    by (simp add: the_quill_def fun_eq_iff)
  show "contents (the_quill (on_text_change User m q s) q)
         = (if mv' = [] then contents (the_quill s q) else stored ops')"
    using sp(2) tq [OF b(1)] by (simp add: e t')
  show "contents (the_quill (on_text_change User m q s) ?nq)
         = (if mv' = [] then [] else stored mv')"
    using sp(3) c1 by (simp add: e t')
  show "\<forall>x. x \<noteq> q \<and> x < ?nq \<longrightarrow> the_quill (on_text_change User m q s) x = the_quill s x"
    using sp(4) tq by (auto simp: e t')
  have fr: "frame ?s1 (snd ?mv)" by (rule frame_moveOverflowContent)
  show "pages (on_text_change User m q s) = pages ?s1"
    using fr by (simp add: e frame_def)
  show "editors (on_text_change User m q s) = editors ?s1"
    using fr by (simp add: e frame_def)
qed

text \<open>
  C6, as the spec states it, fails: with two pages, an overflow of page 1 (which is not the
  last page) creates a third page all the same, and the op taken off page 1, the plain run
  that carries its terminator, goes to that third page; the existing next page keeps its
  content.
\<close>

theorem overflow_not_last_counterexample:
  "length (pages two_pages) = 2 \<and> map_of (editors two_pages) 2 = Some 1 \<and>
   overflows (high_then_low 0) \<and>
   getContents (the_quill two_pages 0)
     = [Insert ''Hello '' [(''bold'', ''true'')], Insert ''world\<newline>'' []] \<and>
   length (pages (on_text_change User high_then_low 0 two_pages)) = 3 \<and>
   editors (on_text_change User high_then_low 0 two_pages) = [(1, 0), (2, 1), (3, 2)] \<and>
   getContents (the_quill (on_text_change User high_then_low 0 two_pages) 0)
     = [Insert ''Hello '' [(''bold'', ''true'')], Insert ''\<newline>'' []] \<and>
   getContents (the_quill (on_text_change User high_then_low 0 two_pages) 1)
     = [Insert ''next\<newline>'' []] \<and>
   getContents (the_quill (on_text_change User high_then_low 0 two_pages) 2)
     = [Insert ''world\<newline>'' []]"
proof -
  define s1 where "s1 = createNewPage (updateStats two_pages)"
  have ov: "overflows (high_then_low 0)"
    by (simp add: overflows_def high_then_low_def)
  have pre: "length (pages two_pages) = 2" "map_of (editors two_pages) 2 = Some 1"
    "container (the_quill (updateStats two_pages) 0) = 1"
    "find (\<lambda>p. editor_id p = 1) (pages (updateStats two_pages)) \<noteq> None"
    "getContents (the_quill two_pages 0)
       = [Insert ''Hello '' [(''bold'', ''true'')], Insert ''world\<newline>'' []]"
    by code_simp+
  have f: "map_of (editors s1) (currentPage s1) = Some 2"
    "getContents (the_quill s1 0)
       = [Insert ''Hello '' [(''bold'', ''true'')], Insert ''world\<newline>'' []]"
    "contents (the_quill s1 1) = [Insert ''next'' []]"
    "find (\<lambda>p. editor_id p = Suc 0) (pages s1) \<noteq> None"
    "length (quills s1) = 3" "length (pages s1) = 3" "editors s1 = [(1, 0), (2, 1), (3, 2)]"
    unfolding s1_def by code_simp+
  have loop: "moveLoop (\<lambda>i. high_then_low (Suc i)) (Suc 0) 0 (high_then_low (Suc 0))
      [Insert ''Hello '' [(''bold'', ''true'')], Insert ''world\<newline>'' []] [] s1
    = ([Insert ''Hello '' [(''bold'', ''true'')]], [Insert ''world\<newline>'' []],
       setContents 0 [Insert ''Hello '' [(''bold'', ''true'')]] s1)"
    by (simp add: moveLoop_step moveLoop_stop high_then_low_def overflows_def)
  have mv: "moveOverflowContent (\<lambda>i. high_then_low (Suc i)) 0 (Suc 0) s1
    = (Done, setContents 2 [Insert ''world\<newline>'' []]
               (setContents 0 [Insert ''Hello '' [(''bold'', ''true'')]] s1))"
    using f(4) by (auto simp: moveOverflowContent_def f(1,2) loop)
  have r: "on_text_change User high_then_low 0 two_pages
    = (setContents 2 [Insert ''world\<newline>'' []]
         (setContents 0 [Insert ''Hello '' [(''bold'', ''true'')]] s1))
       \<lparr>lastSaved := ''Unsaved changes''\<rparr>"
    using pre(4)
    by (auto simp: on_text_change_def Let_def checkPageOverflow_def ov pre(3) mv
        simp flip: s1_def)
  have t': "the_quill (x\<lparr>lastSaved := y\<rparr>) = the_quill x" for x y
    by (simp add: the_quill_def fun_eq_iff)
  from f pre show ?thesis
    by (simp add: ov r t' setContents_fields the_quill_setContents getContents_def)
qed

text \<open>
  C6, amended. On a user-driven change of a page that still carries the number it was
  created under, so that its listener measures its own element, and whose height reads as
  overflowing, a new page is always appended as the last page of the document, whether or
  not the page was the last one; then the overflow is moved into that new page. The ops of
  the page, terminator included, are cut in two: one op goes for each further read of the
  height that overflows, \<open>m 1\<close>, \<open>m 2\<close>, ..., from the end, until a read does not overflow
  or one op is left. When ops went, the page is set to those that stay and the new page to
  those that went; when none went, the page keeps its content and the new page is empty. No
  other page's content changes.
\<close>

theorem overflow_appends_page:
  "wf s \<Longrightarrow> map_of (editors s) r = Some q \<Longrightarrow>
   container (the_quill s q) = r \<Longrightarrow> overflows (m 0) \<Longrightarrow>
     length (pages (on_text_change User m q s)) = Suc (length (pages s)) \<and>
     editors (on_text_change User m q s)
       = editors s @ [(Suc (length (pages s)), length (quills s))] \<and>
     (\<exists>kept moved.
        kept @ moved = getContents (the_quill s q) \<and> kept \<noteq> [] \<and>
        (\<forall>j < length moved. overflows (m (Suc j))) \<and>
        (1 < length kept \<longrightarrow> \<not> overflows (m (Suc (length moved)))) \<and>
        contents (the_quill (on_text_change User m q s) q)
          = (if moved = [] then contents (the_quill s q) else stored kept) \<and>
        contents (the_quill (on_text_change User m q s) (length (quills s)))
          = (if moved = [] then [] else stored moved)) \<and>
     (\<forall>x. x \<noteq> q \<and> x < length (quills s) \<longrightarrow>
        contents (the_quill (on_text_change User m q s) x) = contents (the_quill s x))"
proof -
  assume w: "wf s" and q: "map_of (editors s) r = Some q"
    and c: "container (the_quill s q) = r" and ov: "overflows (m 0)"
  from wf_mounted_bound(3) [OF w q] c
  have a: "wf s" "map_of (editors s) r = Some q"
    "container (the_quill s q) \<le> length (pages s)" "overflows (m 0)"
    using w q ov by simp_all
  obtain kept moved s' where
    l: "moveLoop (\<lambda>i. m (Suc i)) (Suc 0) q (m (Suc 0)) (getContents (the_quill s q)) []
          (createNewPage (updateStats s)) = (kept, moved, s')"
    by (cases "moveLoop (\<lambda>i. m (Suc i)) (Suc 0) q (m (Suc 0)) (getContents (the_quill s q)) []
          (createNewPage (updateStats s))") auto
  note o = on_text_change_user_overflow [where m = m, OF a l]
  have w0: "wf (updateStats s)" by (rule wf_frame [OF frame_updateStats a(1)])
  have same: "pages (updateStats s) = pages s" "quills (updateStats s) = quills s"
    "editors (updateStats s) = editors s"
    by (simp_all add: updateStats_def)
  have k1: "kept @ moved = getContents (the_quill s q)"
    using moveLoop_append [OF l] by simp
  have k2: "kept \<noteq> []"
    using moveLoop_nonempty [OF l] by (simp add: getContents_def with_terminator_nonempty)
  have k3: "(\<forall>j < length moved. overflows (m (Suc j))) \<and>
      (1 < length kept \<longrightarrow> \<not> overflows (m (Suc (length moved))))"
    using moveLoop_reads [OF l, of "\<lambda>j. m (Suc j)"] by simp
  have "\<exists>kept moved.
        kept @ moved = getContents (the_quill s q) \<and> kept \<noteq> [] \<and>
        (\<forall>j < length moved. overflows (m (Suc j))) \<and>
        (1 < length kept \<longrightarrow> \<not> overflows (m (Suc (length moved)))) \<and>
        contents (the_quill (on_text_change User m q s) q)
          = (if moved = [] then contents (the_quill s q) else stored kept) \<and>
        contents (the_quill (on_text_change User m q s) (length (quills s)))
          = (if moved = [] then [] else stored moved)"
    using k1 k2 k3 o(1,2) by blast
  moreover have "length (pages (on_text_change User m q s)) = Suc (length (pages s))"
    "editors (on_text_change User m q s)
       = editors s @ [(Suc (length (pages s)), length (quills s))]"
    by (simp_all add: o(4,5) createNewPage_wf [OF w0] same)
  moreover have "\<forall>x. x \<noteq> q \<and> x < length (quills s) \<longrightarrow>
        contents (the_quill (on_text_change User m q s) x) = contents (the_quill s x)"
    using o(3) by simp
  ultimately show ?thesis by blast
qed

theorem overflow_appends_page_witness:
  "wf two_pages \<and> map_of (editors two_pages) 1 = Some 0 \<and>
   container (the_quill two_pages 0) = 1 \<and>
   overflows (high_then_low 0) \<and>
   length (pages (on_text_change User high_then_low 0 two_pages)) = 3 \<and>
   editors (on_text_change User high_then_low 0 two_pages)
     = editors two_pages @ [(3, 2)] \<and>
   contents (the_quill (on_text_change User high_then_low 0 two_pages) 0)
     = [Insert ''Hello '' [(''bold'', ''true'')]] \<and>
   contents (the_quill (on_text_change User high_then_low 0 two_pages) 2)
     = [Insert ''world'' []] \<and>
   contents (the_quill (on_text_change User high_then_low 0 two_pages) 1)
     = [Insert ''next'' []]"
proof -
  let ?s' = "on_text_change User high_then_low 0 two_pages"
  let ?a = "Insert ''Hello '' [(''bold'', ''true'')]" and ?b = "Insert ''world\<newline>'' []"
  have w: "wf two_pages"
    unfolding two_pages_def by (intro wf_typed wf_createNewPage wf_initial)
  have h: "map_of (editors two_pages) 1 = Some 0"
    "container (the_quill two_pages 0) = 1"
    by code_simp+
  have ov: "overflows (high_then_low 0)" "overflows (high_then_low (Suc 0))"
    "\<not> overflows (high_then_low (Suc (Suc 0)))"
    by (simp_all add: overflows_def high_then_low_def)
  have l: "length (pages two_pages) = 2" "length (quills two_pages) = 2"
    "getContents (the_quill two_pages 0) = [?a, ?b]"
    "contents (the_quill two_pages 1) = [Insert ''next'' []]"
    by code_simp+
  note t = overflow_appends_page [where m = high_then_low, OF w h ov(1)]
  from t obtain kept moved where k: "kept @ moved = [?a, ?b]" "kept \<noteq> []"
    "\<forall>j < length moved. overflows (high_then_low (Suc j))"
    "1 < length kept \<longrightarrow> \<not> overflows (high_then_low (Suc (length moved)))"
    "contents (the_quill ?s' 0) = (if moved = [] then contents (the_quill two_pages 0)
                                   else stored kept)"
    "contents (the_quill ?s' 2) = (if moved = [] then [] else stored moved)"
    unfolding l by blast
  from k(1,2) have "kept = [?a] \<and> moved = [?b] \<or> kept = [?a, ?b] \<and> moved = []"
    by (auto simp: append_eq_Cons_conv)
  with k(4) ov(2) have km: "kept = [?a]" "moved = [?b]" by auto
  from k(5,6) have c: "contents (the_quill ?s' 0) = [Insert ''Hello '' [(''bold'', ''true'')]]"
    "contents (the_quill ?s' 2) = [Insert ''world'' []]"
    by (simp_all add: km)
  from t l(2,4) have o: "contents (the_quill ?s' 1) = [Insert ''next'' []]" by simp
  from t w h ov(1) l(1,2) c o show ?thesis by simp
qed

section \<open>Enter at the start of a page\<close>

text \<open>
  C7. The function that shifts a page's content on Enter at offset 0 is bound to the key
  behind the widget's own Enter handler, which ends the chain: a press of Enter never calls
  it, and does to the document what the widget's handler does, whatever that is. On the one
  page holding \<open>x\<close>, with the cursor at offset 0, the key breaks the line before \<open>x\<close>: no
  page is created, the content stays on page 1, which is not cleared. The bound function,
  were it reached, would create page 2 and move \<open>x\<close> there.
\<close>

theorem enter_binding_unreached:
  "press_enter lineBreak q s = lineBreak q s \<and>
   getSelection 0 one_page = Some 0 \<and> editors one_page = [(1, 0)] \<and>
   length (pages (press_enter (line_break_at_start always_low) 0 one_page)) = 1 \<and>
   editors (press_enter (line_break_at_start always_low) 0 one_page) = [(1, 0)] \<and>
   contents (the_quill (press_enter (line_break_at_start always_low) 0 one_page) 0)
     = [Insert ''\<newline>'' [], Insert ''x'' []] \<and>
   \<not> isPageEmpty (the_quill (press_enter (line_break_at_start always_low) 0 one_page) 0) \<and>
   fst (enter_binding 0 one_page) = Some True \<and>
   editors (snd (enter_binding 0 one_page)) = [(1, 0), (2, 1)] \<and>
   contents (the_quill (snd (enter_binding 0 one_page)) 0) = [] \<and>
   contents (the_quill (snd (enter_binding 0 one_page)) 1) = [Insert ''x'' []]"
proof -
  define s0 where "s0 = typed 0 [Insert ''\<newline>'' [], Insert ''x'' []] one_page"
  have c: "contents (the_quill one_page 0) = [Insert ''x'' []]" by code_simp
  have f: "container (the_quill (updateStats s0) 0) = 1"
    "find (\<lambda>p. editor_id p = 1) (pages (updateStats s0)) \<noteq> None"
    "length (pages s0) = 1" "editors s0 = [(1, 0)]" "length (quills s0) = 1"
    "contents (the_quill s0 0) = [Insert ''\<newline>'' [], Insert ''x'' []]"
    unfolding s0_def by code_simp+
  have lo: "\<not> overflows (always_low 0)" by (simp add: overflows_def always_low_def)
  have r: "line_break_at_start always_low 0 one_page
    = upd_quill 0 (\<lambda>x. x\<lparr>range_index := Some 1\<rparr>)
        ((updateStats s0)\<lparr>lastSaved := ''Unsaved changes''\<rparr>)"
    using f(2)
    by (auto simp: line_break_at_start_def c on_text_change_def Let_def checkPageOverflow_def
        lo f(1) simp flip: s0_def)
  have k: "length (pages (line_break_at_start always_low 0 one_page)) = 1"
    "editors (line_break_at_start always_low 0 one_page) = [(1, 0)]"
    "contents (the_quill (line_break_at_start always_low 0 one_page) 0)
       = [Insert ''\<newline>'' [], Insert ''x'' []]"
    using f(3-6)
    by (simp_all add: r upd_quill_def updateStats_def the_quill_def)
  have ne: "\<not> isPageEmpty (the_quill (line_break_at_start always_low 0 one_page) 0)"
    by (simp add: isPageEmpty_def getText_def k(3) trim_def is_space_def)
  have b: "getSelection 0 one_page = Some 0" "editors one_page = [(1, 0)]"
    "fst (enter_binding 0 one_page) = Some True"
    "editors (snd (enter_binding 0 one_page)) = [(1, 0), (2, 1)]"
    "contents (the_quill (snd (enter_binding 0 one_page)) 0) = []"
    "contents (the_quill (snd (enter_binding 0 one_page)) 1) = [Insert ''x'' []]"
    by code_simp+
  show ?thesis
    using k ne b by (simp add: press_enter_def quill_enter_def)
qed

section \<open>Backspace and Delete\<close>

lemma wf_nth_editors:
  assumes "wf s" "i < length (pages s)"
  shows "editors s ! i = (Suc i, mounted (pages s ! i))"
proof -
  from assms(1) have "editors s = zip (ranks (length (pages s))) (map mounted (pages s))"
    by (simp add: wf_def Let_def)
  with assms(2) show ?thesis by (simp add: length_ranks ranks_def del: upt_Suc)
qed

lemma wf_length_editors: "wf s \<Longrightarrow> length (editors s) = length (pages s)"
  by (simp add: wf_def Let_def length_ranks)

lemma wf_mounted_inj:
  assumes "wf s" "i < length (pages s)" "j < length (pages s)"
    and "mounted (pages s ! i) = mounted (pages s ! j)"
  shows "i = j"
proof -
  from assms(1) have "distinct (map mounted (pages s))" by (simp add: wf_def Let_def)
  moreover have "map mounted (pages s) ! i = map mounted (pages s) ! j"
    using assms(2-4) by simp
  moreover have "i < length (map mounted (pages s))" "j < length (map mounted (pages s))"
    using assms(2,3) by simp_all
  ultimately show ?thesis by (simp only: nth_eq_iff_index_eq)
qed

lemma wf_rank_of:
  assumes "wf s" "map_of (editors s) r = Some q"
  shows "rank_of q s = Some r"
proof -
  note b = wf_mounted_bound [OF assms]
  have i: "r - 1 < length (editors s)" using b(2,3) by (simp add: wf_length_editors [OF assms(1)])
  have "find (\<lambda>(k, e). e = q) (editors s) = Some (r, q)"
    unfolding find_Some_iff
  proof (intro exI [of _ "r - 1"] conjI allI impI)
    show "r - 1 < length (editors s)" by (rule i)
    have e: "editors s ! (r - 1) = (r, q)"
      using wf_nth_editors [OF assms(1), of "r - 1"] b by simp
    then show "case editors s ! (r - 1) of (k, e) \<Rightarrow> e = q" by simp
    show "(r, q) = editors s ! (r - 1)" by (simp only: e)
    fix j assume j: "j < r - 1"
    then have jn: "j < length (pages s)" using b(3) by simp
    have rn: "r - 1 < length (pages s)" using b(2,3) by simp
    have "mounted (pages s ! j) \<noteq> q"
      using wf_mounted_inj [OF assms(1) jn rn] b(4) j by auto
    then show "\<not> (case editors s ! j of (k, e) \<Rightarrow> e = q)"
      by (simp add: wf_nth_editors [OF assms(1) jn])
  qed
  then show ?thesis by (simp add: rank_of_def)
qed

lemma length_quills_fold_timers: "length (quills (fold run_timer ts s)) = length (quills s)"
proof (induction ts arbitrary: s)
  case Nil
  show ?case by simp
next
  case (Cons t ts)
  have "frame s (run_timer t s)" by (rule frame_run_timer)
  then show ?case by (simp add: Cons frame_def)
qed

lemma run_timers_last_FocusAt:
  assumes "timers s = ts @ [FocusAt e i]" "e < length (quills s)"
  shows "focused (run_timers s) = Some e" "getSelection e (run_timers s) = Some i"
proof -
  let ?t = "fold run_timer ts (s\<lparr>timers := []\<rparr>)"
  have r: "run_timers s = setSelection e i (focus e ?t)"
    by (simp add: run_timers_def assms(1))
  have "e < length (quills ?t)" using assms(2) by (simp add: length_quills_fold_timers)
  then show "focused (run_timers s) = Some e" "getSelection e (run_timers s) = Some i"
    by (simp_all add: r setSelection_def focus_def upd_quill_def updateCurrentPageDisplay_def
        getSelection_def the_quill_def Let_def)
qed

lemma wf_not_registered_after_delete:
  assumes "wf s" "2 \<le> r" "r \<le> length (pages s)"
  shows "mounted (pages s ! (r - 1))
     \<notin> set (map mounted (take (r - 1) (pages s) @ drop r (pages s)))"
proof -
  from assms(1) have d: "distinct (map mounted (pages s))" by (simp add: wf_def Let_def)
  have "pages s = take (r - 1) (pages s) @ pages s ! (r - 1) # drop r (pages s)"
    using id_take_nth_drop [of "r - 1" "pages s"] assms(2,3) by simp
  then have "map mounted (pages s)
      = map mounted (take (r - 1) (pages s)) @ mounted (pages s ! (r - 1))
          # map mounted (drop r (pages s))"
    by (metis list.simps(9) map_append)
  with d show ?thesis by (metis distinct_append distinct.simps(2)
        map_append set_append UnE disjoint_iff list.set_intros(1))
qed

lemma js_keys_zip_ranks: "length xs = n \<Longrightarrow> js_keys (zip (ranks n) xs) = [1..<Suc n]"
  by (simp add: js_keys_def length_ranks sorted_sort_id sorted_ranks) (simp add: ranks_def)

lemma empty_page_key_fresh:
  assumes "wf s" "map_of (editors s) r = Some q" "1 < r"
    and "container (the_quill s q) = r" "isPageEmpty (the_quill s q)"
    and "k = Backspace \<or> k = Delete" "timers s = []"
  shows "keydown atStart merge k q s = (True, snd (deleteEmptyPage r s))"
    and "fst (deleteEmptyPage r s)"
    and "length (pages (snd (deleteEmptyPage r s))) = length (pages s) - 1"
    and "js_keys (editors (snd (deleteEmptyPage r s))) = [1..<length (pages s)]"
    and "q \<notin> snd ` set (editors (snd (deleteEmptyPage r s)))"
    and "focused (run_timers (snd (deleteEmptyPage r s))) = map_of (editors s) (r - 1)"
    and "\<exists>p. map_of (editors s) (r - 1) = Some p \<and>
           getSelection p (run_timers (snd (deleteEmptyPage r s)))
             = Some (getLength (the_quill s p) - 1)"
proof -
  let ?ps = "pages s" and ?n = "length (pages s)"
  define ps' where "ps' = take (r - 1) ?ps @ drop r ?ps"
  define s' where "s' = snd (deleteEmptyPage r s)"
  define p where "p = mounted (?ps ! (r - 2))"
  note b = wf_mounted_bound [OF assms(1,2)]
  have r2: "2 \<le> r" using assms(3) by simp
  have emp: "isPageEmpty (the_quill s (mounted (?ps ! (r - 1))))"
    using assms(5) b(4) by simp
  note d = deleteEmptyPage_wf [OF assms(1) r2 b(3) emp]
  have f: "pages s' = relabel ps'" "editors s' = zip (ranks (?n - 1)) (map mounted ps')"
    "quills s' = quills s" "timers s' = [FocusActiveEnd (r - 1)]" "activeEditor s' = Some p"
    by (simp_all add: s'_def d ps'_def p_def assms(7))
  have len: "length ps' = ?n - 1" using r2 b(3) by (auto simp: ps'_def)
  show "keydown atStart merge k q s = (True, snd (deleteEmptyPage r s))"
    using assms(3,4,5,6) by (auto simp: keydown_def Let_def)
  show "fst (deleteEmptyPage r s)" by (simp add: d)
  show "length (pages (snd (deleteEmptyPage r s))) = ?n - 1"
    by (simp add: f length_relabel len flip: s'_def)
  have sn: "Suc (?n - 1) = ?n" using r2 b(3) by simp
  have "js_keys (editors s') = [1..<Suc (?n - 1)]"
    by (simp only: f js_keys_zip_ranks length_map len)
  then show "js_keys (editors (snd (deleteEmptyPage r s))) = [1..<?n]"
    by (simp only: sn s'_def)
  have "snd ` set (editors s') = set (map mounted ps')"
    by (simp only: f map_snd_zip length_ranks length_map len flip: set_map)
  then show "q \<notin> snd ` set (editors (snd (deleteEmptyPage r s)))"
    using wf_not_registered_after_delete [OF assms(1) r2 b(3)] b(4)
    by (simp add: ps'_def flip: s'_def)
  have "r - 1 = Suc (r - 2)" using r2 by simp
  then have pv: "map_of (editors s) (r - 1) = Some p"
    using wf_map_of_editors [OF assms(1), of "r - 1"] r2 b(3)
    by (simp add: p_def)
  have pl: "p < length (quills s)"
    using wf_mounted_bound(1) [OF assms(1) pv] .
  have rt: "run_timers s' = run_timer (FocusActiveEnd (r - 1)) (s'\<lparr>timers := []\<rparr>)"
    by (simp add: run_timers_def f)
  show "focused (run_timers (snd (deleteEmptyPage r s))) = map_of (editors s) (r - 1)"
    unfolding pv s'_def [symmetric] rt
    by (simp add: f setSelection_def focus_def upd_quill_def updateCurrentPageDisplay_def Let_def)
  have "getSelection p (run_timers s') = Some (getLength (the_quill s p) - 1)"
    unfolding rt using pl
    by (simp add: f setSelection_def focus_def upd_quill_def updateCurrentPageDisplay_def Let_def
          getSelection_def the_quill_def)
  with pv show "\<exists>p. map_of (editors s) (r - 1) = Some p \<and>
           getSelection p (run_timers (snd (deleteEmptyPage r s)))
             = Some (getLength (the_quill s p) - 1)"
    by (simp add: s'_def)
qed

text \<open>
  C4 fails on the code for a page that was renumbered. After Backspace on the empty page 2
  of three empty pages, the editor created as \<^verbatim>\<open>editor-3\<close> is on page 2; its listener
  still reads the page number 3 from the container id it closed over. Backspace or Delete
  on that empty page prevents the default and calls \<open>deleteEmptyPage 3\<close>, which finds no
  page 3: the page stays. Once a new page 3 exists, the same key deletes that page 3
  instead, and the page the key was pressed on stays.
\<close>

theorem stale_listener_keeps_page:
  "reachable renumbered \<and> editors renumbered = [(1, 0), (2, 2)] \<and>
   container (the_quill renumbered 2) = 3 \<and> isPageEmpty (the_quill renumbered 2) \<and>
   keydown atStart merge Backspace 2 renumbered = (True, renumbered) \<and>
   keydown atStart merge Delete 2 renumbered = (True, renumbered) \<and>
   editors (createNewPage renumbered) = [(1, 0), (2, 2), (3, 3)] \<and>
   editors (snd (keydown atStart merge Backspace 2 (createNewPage renumbered)))
     = [(1, 0), (2, 2)]"
proof -
  have r: "reachable renumbered"
    unfolding renumbered_def three_empty_def by (intro r_delete r_create r_initial)
  have f: "editors renumbered = [(1, 0), (2, 2)]" "container (the_quill renumbered 2) = 3"
    "isPageEmpty (the_quill renumbered 2)" "deleteEmptyPage 3 renumbered = (False, renumbered)"
    by code_simp+
  have g: "editors (createNewPage renumbered) = [(1, 0), (2, 2), (3, 3)]"
    "container (the_quill (createNewPage renumbered) 2) = 3"
    "isPageEmpty (the_quill (createNewPage renumbered) 2)"
    "editors (snd (deleteEmptyPage 3 (createNewPage renumbered))) = [(1, 0), (2, 2)]"
    by code_simp+
  from r f g show ?thesis by (simp add: keydown_def Let_def)
qed

section \<open>Backspace at the start of a page\<close>

lemma frame_setContent: "frame s (setContent q d s)"
  unfolding setContent_def
  by (rule frame_trans [OF frame_upd_quill frame_updateStats]) simp

lemma the_quill_setContent:
  "the_quill (setContent q d s) x =
     (if x = q \<and> q < length (quills s) then (the_quill s q)\<lparr>contents := d\<rparr>
      else the_quill s x)"
  by (cases "q < length (quills s)")
     (auto simp: setContent_def updateStats_def upd_quill_def the_quill_def list_update_beyond)

lemma setContent_fields:
  "timers (setContent q d s) = timers s"
  "length (quills (setContent q d s)) = length (quills s)"
  by (simp_all add: setContent_def updateStats_def upd_quill_def)

lemma moveContentToPreviousPage_wf:
  assumes "wf s" "map_of (editors s) r = Some q" "1 < r"
  defines "p \<equiv> mounted (pages s ! (r - 2))"
  defines "s2 \<equiv> setContent q []
                  (setContent p (contents (the_quill s p) @ contents (the_quill s q)) s)"
  shows "map_of (editors s) (r - 1) = Some p"
    and "p \<noteq> q" "p < length (quills s)"
    and "moveContentToPreviousPage q cid s =
           (True, (snd (deleteEmptyPage r s2))
                    \<lparr>timers := timers (snd (deleteEmptyPage r s2))
                               @ [FocusAt p (getLength (the_quill s p) - 1)]\<rparr>)"
    and "wf s2" "pages s2 = pages s" "timers s2 = timers s" "quills (snd (deleteEmptyPage r s2)) = quills s2"
    and "contents (the_quill s2 p) = contents (the_quill s p) @ contents (the_quill s q)"
    and "deleteEmptyPage r s2 =
    (True, s2\<lparr>pages := relabel (take (r - 1) (pages s) @ drop r (pages s)),
              editors := zip (ranks (length (pages s) - 1))
                           (map mounted (take (r - 1) (pages s) @ drop r (pages s))),
              currentPage := length (pages s) - 1,
              activeEditor := Some p,
              timers := timers s @ [FocusActiveEnd (r - 1)],
              totalPagesDisplay := length (pages s) - 1\<rparr>)"
proof -
  let ?ps = "pages s" and ?n = "length (pages s)"
  note b = wf_mounted_bound [OF assms(1,2)]
  have r2: "2 \<le> r" using assms(3) by simp
  have "r - 1 = Suc (r - 2)" using r2 by simp
  then show pv: "map_of (editors s) (r - 1) = Some p"
    using wf_map_of_editors [OF assms(1), of "r - 1"] r2 b(3)
    by (simp add: p_def)
  show pl: "p < length (quills s)" using wf_mounted_bound(1) [OF assms(1) pv] .
  have i: "r - 2 < ?n" "r - 1 < ?n" "r - 2 \<noteq> r - 1" using r2 b(3) by auto
  show pq: "p \<noteq> q" using wf_mounted_inj [OF assms(1) i(1,2)] i(3) b(4) by (auto simp: p_def)
  have fr: "frame s s2"
    unfolding s2_def by (rule frame_trans [OF frame_setContent frame_setContent])
  show w2: "wf s2" by (rule wf_frame [OF fr assms(1)])
  show pg: "pages s2 = pages s" using fr by (simp add: frame_def)
  show tm: "timers s2 = timers s" by (simp add: s2_def setContent_fields)
  have ed: "editors s2 = editors s" using fr by (simp add: frame_def)
  have q2: "contents (the_quill s2 q) = []"
    using b(1) by (simp add: s2_def the_quill_setContent setContent_fields)
  show p2: "contents (the_quill s2 p) = contents (the_quill s p) @ contents (the_quill s q)"
    using pl pq by (simp add: s2_def the_quill_setContent setContent_fields)
  have emp: "isPageEmpty (the_quill s2 (mounted (pages s2 ! (r - 1))))"
    using q2 b(4) by (simp add: pg isPageEmpty_def getText_def)
  have rn: "r \<le> length (pages s2)" using b(3) by (simp add: pg)
  note d = deleteEmptyPage_wf [OF w2 r2 rn emp]
  show d': "deleteEmptyPage r s2 =
    (True, s2\<lparr>pages := relabel (take (r - 1) ?ps @ drop r ?ps),
              editors := zip (ranks (?n - 1)) (map mounted (take (r - 1) ?ps @ drop r ?ps)),
              currentPage := ?n - 1,
              activeEditor := Some p,
              timers := timers s @ [FocusActiveEnd (r - 1)],
              totalPagesDisplay := ?n - 1\<rparr>)"
    using d by (simp add: pg tm p_def)
  show "quills (snd (deleteEmptyPage r s2)) = quills s2" by (simp add: d')
  have ro: "rank_of q s = Some r" by (rule wf_rank_of [OF assms(1,2)])
  have gt: "\<not> r \<le> 1" using assms(3) by simp
  show "moveContentToPreviousPage q cid s =
           (True, (snd (deleteEmptyPage r s2))
                    \<lparr>timers := timers (snd (deleteEmptyPage r s2))
                               @ [FocusAt p (getLength (the_quill s p) - 1)]\<rparr>)"
    unfolding moveContentToPreviousPage_def
    by (simp only: ro option.case gt if_False pv Let_def getContent_def flip: s2_def)
       (simp add: case_prod_beta)
qed

text \<open>
  C1. In a well-formed document, Backspace with the cursor at offset 0 of a page of rank
  above 1 that is not empty prevents the default; the content of the page is appended to the
  content of the previous page; the page is deleted and its editor leaves the registry; the
  pages left are renumbered \<open>1..N-1\<close>; and once the deferred callbacks have run, the
  focus is on the previous page with the cursor at the join point, the end of the content
  the previous page held before.
\<close>

theorem backspace_at_start_merges:
  "wf s \<Longrightarrow> map_of (editors s) r = Some q \<Longrightarrow> 1 < r \<Longrightarrow>
   \<not> isPageEmpty (the_quill s q) \<Longrightarrow> getSelection q s = Some 0 \<Longrightarrow>
     fst (listener Backspace q s) \<and>
     (\<exists>p. map_of (editors s) (r - 1) = Some p \<and>
        contents (the_quill (snd (listener Backspace q s)) p)
          = contents (the_quill s p) @ contents (the_quill s q) \<and>
        focused (run_timers (snd (listener Backspace q s))) = Some p \<and>
        getSelection p (run_timers (snd (listener Backspace q s)))
          = Some (sum_list (map op_length (contents (the_quill s p))))) \<and>
     length (pages (snd (listener Backspace q s))) = length (pages s) - 1 \<and>
     q \<notin> snd ` set (editors (snd (listener Backspace q s))) \<and>
     js_keys (editors (snd (listener Backspace q s))) = [1..<length (pages s)] \<and>
     map page_id (pages (snd (listener Backspace q s))) = [1..<length (pages s)]"
proof -
  assume w: "wf s" and q: "map_of (editors s) r = Some q" and r1: "1 < r"
    and ne: "\<not> isPageEmpty (the_quill s q)" and sel: "getSelection q s = Some 0"
  let ?n = "length (pages s)"
  define p where "p = mounted (pages s ! (r - 2))"
  define ps' where "ps' = take (r - 1) (pages s) @ drop r (pages s)"
  define s2 where "s2 = setContent q []
                  (setContent p (contents (the_quill s p) @ contents (the_quill s q)) s)"
  define s' where "s' = snd (listener Backspace q s)"
  note b = wf_mounted_bound [OF w q]
  note m = moveContentToPreviousPage_wf [OF w q r1, folded p_def, folded s2_def]
  have r2: "2 \<le> r" using r1 by simp
  have cg: "1 < container (the_quill s q)" using b(5) r1 by simp
  have l: "listener Backspace q s
      = (True, snd (moveContentToPreviousPage q (container (the_quill s q)) s))"
    using cg ne sel by (simp add: listener_def keydown_def isCursorAtBeginning_def Let_def)
  have f: "pages s' = relabel ps'" "editors s' = zip (ranks (?n - 1)) (map mounted ps')"
    "quills s' = quills s2"
    "timers s' = timers s @ [FocusActiveEnd (r - 1), FocusAt p (getLength (the_quill s p) - 1)]"
    by (simp_all add: s'_def l m(4) m(10) ps'_def)
  have len: "length ps' = ?n - 1" using r2 b(3) by (auto simp: ps'_def)
  have sn: "Suc (?n - 1) = ?n" using r2 b(3) by simp
  have tq: "the_quill s' = the_quill s2" by (simp add: the_quill_def fun_eq_iff f)
  have c1: "contents (the_quill s' p) = contents (the_quill s p) @ contents (the_quill s q)"
    by (simp add: tq m(9))
  have pl: "p < length (quills s')"
    using m(3) by (simp add: f s2_def setContent_fields)
  have tm: "timers s'
      = (timers s @ [FocusActiveEnd (r - 1)]) @ [FocusAt p (getLength (the_quill s p) - 1)]"
    by (simp add: f)
  note foc = run_timers_last_FocusAt [OF tm pl]
  have c2: "length (pages s') = ?n - 1" by (simp add: f length_relabel len)
  have "snd ` set (editors s') = set (map mounted ps')"
    by (simp only: f map_snd_zip length_ranks length_map len flip: set_map)
  then have c3: "q \<notin> snd ` set (editors s')"
    using wf_not_registered_after_delete [OF w r2 b(3)] b(4) by (simp add: ps'_def)
  have "js_keys (editors s') = [1..<Suc (?n - 1)]"
    by (simp only: f js_keys_zip_ranks length_map len)
  then have c4: "js_keys (editors s') = [1..<?n]" by (simp only: sn)
  have "map page_id (pages s') = [1..<Suc (?n - 1)]"
    by (simp only: f relabel_ids len ranks_def)
  then have c5: "map page_id (pages s') = [1..<?n]" by (simp only: sn)
  have "fst (listener Backspace q s)" by (simp add: l)
  moreover have "\<exists>p. map_of (editors s) (r - 1) = Some p \<and>
        contents (the_quill s' p) = contents (the_quill s p) @ contents (the_quill s q) \<and>
        focused (run_timers s') = Some p \<and>
        getSelection p (run_timers s') = Some (sum_list (map op_length (contents (the_quill s p))))"
    using m(1) c1 foc by (intro exI [of _ p]) (simp add: getLength_def)
  ultimately show ?thesis
    using c2 c3 c4 c5 unfolding s'_def by blast
qed

text \<open>Scenario B of the spec: \<open>A\<close> on page 1, \<open>B\<close> on page 2, Backspace at offset 0 of
  page 2.\<close>

theorem backspace_at_start_merges_witness:
  "wf scenario_b \<and> map_of (editors scenario_b) 2 = Some 1 \<and> (1::nat) < 2 \<and>
   \<not> isPageEmpty (the_quill scenario_b 1) \<and> getSelection 1 scenario_b = Some 0 \<and>
   fst (listener Backspace 1 scenario_b) \<and>
   contents (the_quill (snd (listener Backspace 1 scenario_b)) 0)
     = [Insert ''A'' [], Insert ''B'' []] \<and>
   js_keys (editors (snd (listener Backspace 1 scenario_b))) = [1] \<and>
   focused (run_timers (snd (listener Backspace 1 scenario_b))) = Some 0 \<and>
   getSelection 0 (run_timers (snd (listener Backspace 1 scenario_b))) = Some 1"
proof -
  have w0: "wf (run_timers initial)"
    unfolding run_timers_def
    by (simp add: initial_def wf_def ranks_def setSelection_def upd_quill_def focus_def
          updateCurrentPageDisplay_def getLength_def the_quill_def)
  have w: "wf scenario_b"
    unfolding scenario_b_def
    by (intro wf_frame [OF frame_setSelection] wf_typed wf_createNewPage w0)
  have h: "map_of (editors scenario_b) 2 = Some 1" "(1::nat) < 2"
    "\<not> isPageEmpty (the_quill scenario_b 1)" "getSelection 1 scenario_b = Some 0"
    by code_simp+
  have v: "map_of (editors scenario_b) (2 - 1) = Some 0" "length (pages scenario_b) = 2"
    "contents (the_quill scenario_b 0) = [Insert ''A'' []]"
    "contents (the_quill scenario_b 1) = [Insert ''B'' []]"
    by code_simp+
  from backspace_at_start_merges [OF w h] v w h show ?thesis
    by (auto simp: upt_rec)
qed

end
